theory Spec2Isabelle
  imports Main "HOL-Library.AList"
begin

section \<open>Values and the object heap\<close>

text \<open>
  The store of \<^verbatim>\<open>database.ts\<close> and the codec of \<^verbatim>\<open>obj2obj.ts\<close> work on JavaScript
  values whose identity matters: records are objects that the caller, the record map, the
  index buckets and the transaction log all alias. Objects therefore live in a heap (a list
  of objects, an address is a position in it) and a value holds a reference.

  A reference is either a plain object or a \<^verbatim>\<open>Proxy\<close> made by \<^verbatim>\<open>_wrap\<close>. A proxy carries
  the closure of its handler (table name, record, column name) and its target; it is a
  different identity from its target.

  Scope of the model: JavaScript numbers are the integers and \<^verbatim>\<open>NaN\<close> (no fractions, no
  infinities), property lookup does not follow the prototype chain, a hole of an array
  reads and is stored as \<^verbatim>\<open>undefined\<close>, and a date is a valid one, held as its ISO string
  (\<^verbatim>\<open>toISOString\<close> throws a \<^verbatim>\<open>RangeError\<close> on an invalid date). The keys of a \<^verbatim>\<open>Map\<close> and the
  members of a \<^verbatim>\<open>Set\<close> are compared by SameValueZero, which is the equality of \<open>val\<close>;
  \<^verbatim>\<open>===\<close> is \<open>strict_eq\<close> below, which differs from it on \<^verbatim>\<open>NaN\<close>.
\<close>

datatype pkey = KStr string | KSym nat

datatype ref = Raw nat | Prox string ref "pkey option" ref

datatype val =
    VUndefined
  | VNull
  | VBool bool
  | VNum int
  | VNaN
  | VStr string
  | VBigInt int
  | VSym nat
  | VFun nat
  | VObj ref

datatype hobj =
    HObject "(pkey \<times> val) list"
  | HArray "val list"
  | HMap "(val \<times> val) list"
  | HSet "val list"
  | HDate string

datatype kind = KObject | KArray | KMap | KSet | KDate

datatype error = Error string | TypeError | SyntaxError

text \<open>\<^verbatim>\<open>a === b\<close>: \<^verbatim>\<open>NaN\<close> is not equal to itself, objects are compared by identity.\<close>

definition strict_eq :: "val \<Rightarrow> val \<Rightarrow> bool" where
  "strict_eq a b \<longleftrightarrow> a = b \<and> a \<noteq> VNaN"

fun raw_of :: "ref \<Rightarrow> nat" where
  "raw_of (Raw a) = a"
| "raw_of (Prox tn r c t) = raw_of t"

definition heap_at :: "hobj list \<Rightarrow> nat \<Rightarrow> hobj" where
  "heap_at h a = (if a < length h then h ! a else HObject [])"

fun kind_of_hobj :: "hobj \<Rightarrow> kind" where
  "kind_of_hobj (HObject ps) = KObject"
| "kind_of_hobj (HArray xs) = KArray"
| "kind_of_hobj (HMap kvs) = KMap"
| "kind_of_hobj (HSet xs) = KSet"
| "kind_of_hobj (HDate d) = KDate"

subsection \<open>Decimal strings\<close>

definition digit_char :: "nat \<Rightarrow> char" where
  "digit_char d = char_of (48 + d)"

definition is_digit :: "char \<Rightarrow> bool" where
  "is_digit c = (48 \<le> (of_char c :: nat) \<and> (of_char c :: nat) \<le> 57)"

definition digit_val :: "char \<Rightarrow> nat" where
  "digit_val c = (of_char c :: nat) - 48"

fun show_nat :: "nat \<Rightarrow> string" where
  "show_nat n = (if n < 10 then [digit_char n] else show_nat (n div 10) @ [digit_char (n mod 10)])"

declare show_nat.simps [simp del]

definition parse_nat :: "string \<Rightarrow> nat" where
  "parse_nat s = foldl (\<lambda>acc c. acc * 10 + digit_val c) 0 s"

text \<open>\<^verbatim>\<open>BigInt.prototype.toString\<close>: the canonical decimal form.\<close>

definition show_int :: "int \<Rightarrow> string" where
  "show_int i = (if i < 0 then CHR ''-'' # show_nat (nat (- i)) else show_nat (nat i))"

text \<open>
  \<^verbatim>\<open>BigInt(string)\<close>: only the plain decimal forms are modelled (an optional sign and
  digits; the empty string is zero); every other string is the \<^verbatim>\<open>SyntaxError\<close> case.
\<close>

definition parse_int :: "string \<Rightarrow> int option" where
  "parse_int s =
     (case s of
        [] \<Rightarrow> Some 0
      | c # cs \<Rightarrow>
          if c = CHR ''-'' \<and> cs \<noteq> [] \<and> list_all is_digit cs then Some (- int (parse_nat cs))
          else if c = CHR ''+'' \<and> cs \<noteq> [] \<and> list_all is_digit cs then Some (int (parse_nat cs))
          else if list_all is_digit s then Some (int (parse_nat s))
          else None)"

text \<open>An array index: a property key that is the canonical decimal form of a number.\<close>

definition array_index :: "pkey \<Rightarrow> nat option" where
  "array_index k =
     (case k of
        KStr s \<Rightarrow> if s \<noteq> [] \<and> list_all is_digit s \<and> show_nat (parse_nat s) = s
                  then Some (parse_nat s) else None
      | KSym n \<Rightarrow> None)"

subsection \<open>Property access on a plain object\<close>

text \<open>\<^verbatim>\<open>obj[key]\<close>, \<^verbatim>\<open>obj[key] = v\<close> and \<^verbatim>\<open>delete obj[key]\<close> on an object that is not a proxy.\<close>

fun raw_get :: "hobj \<Rightarrow> pkey \<Rightarrow> val" where
  "raw_get (HObject ps) k = (case map_of ps k of Some v \<Rightarrow> v | None \<Rightarrow> VUndefined)"
| "raw_get (HArray xs) k =
     (if k = KStr ''length'' then VNum (int (length xs))
      else case array_index k of
             Some i \<Rightarrow> if i < length xs then xs ! i else VUndefined
           | None \<Rightarrow> VUndefined)"
| "raw_get (HMap kvs) k = (if k = KStr ''size'' then VNum (int (length kvs)) else VUndefined)"
| "raw_get (HSet xs) k = (if k = KStr ''size'' then VNum (int (length xs)) else VUndefined)"
| "raw_get (HDate d) k = VUndefined"

fun raw_set :: "hobj \<Rightarrow> pkey \<Rightarrow> val \<Rightarrow> hobj" where
  "raw_set (HObject ps) k v = HObject (AList.update k v ps)"
| "raw_set (HArray xs) k v =
     (case array_index k of
        Some i \<Rightarrow> if i < length xs then HArray (xs[i := v])
                  else HArray (xs @ replicate (i - length xs) VUndefined @ [v])
      | None \<Rightarrow> HArray xs)"
| "raw_set (HMap kvs) k v = HMap kvs"
| "raw_set (HSet xs) k v = HSet xs"
| "raw_set (HDate d) k v = HDate d"

fun raw_delete :: "hobj \<Rightarrow> pkey \<Rightarrow> hobj" where
  "raw_delete (HObject ps) k = HObject (AList.delete k ps)"
| "raw_delete (HArray xs) k =
     (case array_index k of
        Some i \<Rightarrow> if i < length xs then HArray (xs[i := VUndefined]) else HArray xs
      | None \<Rightarrow> HArray xs)"
| "raw_delete (HMap kvs) k = HMap kvs"
| "raw_delete (HSet xs) k = HSet xs"
| "raw_delete (HDate d) k = HDate d"

subsection \<open>The built-in methods the store calls\<close>

datatype jsmethod =
    m_add | m_set | m_delete | m_clear | m_get | m_has
  | m_push | m_pop | m_shift | m_unshift | m_splice

fun method_name :: "jsmethod \<Rightarrow> string" where
  "method_name m_add = ''add''"
| "method_name m_set = ''set''"
| "method_name m_delete = ''delete''"
| "method_name m_clear = ''clear''"
| "method_name m_get = ''get''"
| "method_name m_has = ''has''"
| "method_name m_push = ''push''"
| "method_name m_pop = ''pop''"
| "method_name m_shift = ''shift''"
| "method_name m_unshift = ''unshift''"
| "method_name m_splice = ''splice''"

text \<open>\<^verbatim>\<open>args[i]\<close>: \<^verbatim>\<open>undefined\<close> past the end.\<close>

definition arg :: "nat \<Rightarrow> val list \<Rightarrow> val" where
  "arg i as = (if i < length as then as ! i else VUndefined)"

text \<open>\<^verbatim>\<open>Set.prototype.add\<close> and \<^verbatim>\<open>delete\<close> on the insertion-ordered element list.\<close>

definition set_add :: "'a \<Rightarrow> 'a list \<Rightarrow> 'a list" where
  "set_add x xs = (if x \<in> set xs then xs else xs @ [x])"

definition set_delete :: "'a \<Rightarrow> 'a list \<Rightarrow> 'a list" where
  "set_delete x xs = removeAll x xs"

text \<open>ToIntegerOrInfinity on the arguments of \<^verbatim>\<open>splice\<close> (numbers; anything else counts as 0).\<close>

fun to_integer :: "val \<Rightarrow> int" where
  "to_integer (VNum n) = n"
| "to_integer (VBool b) = (if b then 1 else 0)"
| "to_integer v = 0"

definition splice_start :: "val list \<Rightarrow> nat \<Rightarrow> nat" where
  "splice_start as len =
     (let rel = to_integer (arg 0 as)
      in if rel < 0 then nat (max (int len + rel) 0) else nat (min rel (int len)))"

definition splice_count :: "val list \<Rightarrow> nat \<Rightarrow> nat" where
  "splice_count as len =
     (let start = splice_start as len
      in if length as = 0 then 0
         else if length as = 1 then len - start
         else nat (min (max (to_integer (arg 1 as)) 0) (int (len - start))))"

text \<open>
  \<open>method_on obj m args this\<close> runs a built-in method on a plain object: \<open>None\<close> when the
  object has no such method (the call is a \<^verbatim>\<open>TypeError\<close>), otherwise the returned value,
  the object afterwards, and the elements of the array that \<^verbatim>\<open>splice\<close> allocates.
\<close>

fun method_on :: "hobj \<Rightarrow> jsmethod \<Rightarrow> val list \<Rightarrow> val \<Rightarrow> (val \<times> hobj \<times> val list option) option" where
  "method_on (HMap kvs) m_get as this =
     Some ((case map_of kvs (arg 0 as) of Some v \<Rightarrow> v | None \<Rightarrow> VUndefined), HMap kvs, None)"
| "method_on (HMap kvs) m_has as this =
     Some (VBool (map_of kvs (arg 0 as) \<noteq> None), HMap kvs, None)"
| "method_on (HMap kvs) m_set as this =
     Some (this, HMap (AList.update (arg 0 as) (arg 1 as) kvs), None)"
| "method_on (HMap kvs) m_delete as this =
     Some (VBool (map_of kvs (arg 0 as) \<noteq> None), HMap (AList.delete (arg 0 as) kvs), None)"
| "method_on (HMap kvs) m_clear as this = Some (VUndefined, HMap [], None)"
| "method_on (HSet xs) m_has as this = Some (VBool (arg 0 as \<in> set xs), HSet xs, None)"
| "method_on (HSet xs) m_add as this = Some (this, HSet (set_add (arg 0 as) xs), None)"
| "method_on (HSet xs) m_delete as this =
     Some (VBool (arg 0 as \<in> set xs), HSet (set_delete (arg 0 as) xs), None)"
| "method_on (HSet xs) m_clear as this = Some (VUndefined, HSet [], None)"
| "method_on (HArray xs) m_push as this =
     Some (VNum (int (length (xs @ as))), HArray (xs @ as), None)"
| "method_on (HArray xs) m_unshift as this =
     Some (VNum (int (length (as @ xs))), HArray (as @ xs), None)"
| "method_on (HArray xs) m_pop as this =
     (if xs = [] then Some (VUndefined, HArray [], None)
      else Some (last xs, HArray (butlast xs), None))"
| "method_on (HArray xs) m_shift as this =
     (if xs = [] then Some (VUndefined, HArray [], None)
      else Some (hd xs, HArray (tl xs), None))"
| "method_on (HArray xs) m_splice as this =
     (let start = splice_start as (length xs); n = splice_count as (length xs)
      in Some (VUndefined,
               HArray (take start xs @ drop 2 as @ drop (start + n) xs),
               Some (take n (drop start xs))))"
| "method_on obj m as this = None"

text \<open>
  A method call on a plain object at address \<open>a\<close>. The array of deleted elements that
  \<^verbatim>\<open>splice\<close> returns is a new object at the end of the heap.
\<close>

definition raw_call :: "nat \<Rightarrow> jsmethod \<Rightarrow> val list \<Rightarrow> hobj list \<Rightarrow> (error + val) \<times> hobj list" where
  "raw_call a m as h =
     (case method_on (heap_at h a) m as (VObj (Raw a)) of
        None \<Rightarrow> (Inl TypeError, h)
      | Some (res, obj', None) \<Rightarrow> (Inr res, h[a := obj'])
      | Some (res, obj', Some del) \<Rightarrow> (Inr (VObj (Raw (length h))), h[a := obj'] @ [HArray del]))"

section \<open>The store\<close>

text \<open>
  \<^verbatim>\<open>DataRecordUpdateEvent\<close>: the tag and the fields an event object may carry (a field the
  source leaves out is \<open>None\<close> or \<^verbatim>\<open>undefined\<close>).
\<close>

datatype evtype = ev_added | ev_removed | ev_method jsmethod | ev_delete | ev_set

datatype event =
  Event (etype: evtype) (etableName: string) (erecord: ref) (ecolName: "pkey option")
    (eobject: "ref option") (ekey: "pkey option") (eoldValue: val) (enewValue: val)
    (edeletedValue: val) (edeletedValues: val) (eargs: "val list")

text \<open>
  One table of \<^verbatim>\<open>DataStore\<close>: the record map (a \<^verbatim>\<open>Map\<close> from identifier to record), the
  indices (per column, a \<^verbatim>\<open>Map\<close> from value to the \<^verbatim>\<open>Set\<close> of records) and the counter.
  A JavaScript \<^verbatim>\<open>Map\<close> is an association list in insertion order, a \<^verbatim>\<open>Set\<close> a list.
\<close>

record table =
  records :: "(val \<times> ref) list"
  indices :: "(string \<times> (val \<times> ref list) list) list"
  lastUID :: "int option"

text \<open>
  The state of a \<^verbatim>\<open>Database\<close> with the heap its records live in: \<^verbatim>\<open>_data\<close>, the
  \<^verbatim>\<open>_wrapped\<close> cache (target to proxy), the stack \<^verbatim>\<open>_transactions\<close> (innermost last) and
  the lines \<^verbatim>\<open>logError\<close> has printed.
\<close>

record database =
  heap :: "hobj list"
  data :: "(string \<times> table) list"
  wrapped :: "(ref \<times> ref) list"
  transactions :: "event list list"
  console :: "string list"

definition new_database :: "hobj list \<Rightarrow> database" where
  "new_database h = \<lparr>heap = h, data = [], wrapped = [], transactions = [], console = []\<rparr>"

definition UniqueID :: pkey where
  "UniqueID = KSym 0"

definition quoted :: "string \<Rightarrow> string" where
  "quoted t = CHR 0x22 # t @ [CHR 0x22]"

definition logError :: "string \<Rightarrow> database \<Rightarrow> database" where
  "logError e s = s\<lparr>console := console s @ [e]\<rparr>"

definition kind_of :: "database \<Rightarrow> ref \<Rightarrow> kind" where
  "kind_of s r = kind_of_hobj (heap_at (heap s) (raw_of r))"

subsection \<open>The Mutation Observer\<close>

text \<open>
  \<^verbatim>\<open>_wrap(tableName, record, colName, obj)\<close>: a value that is not an object is returned as
  it is; an object already in the cache gets its cached proxy; otherwise a new proxy is
  made and cached. Nothing else writes the cache.
\<close>

definition wrap_obj :: "string \<Rightarrow> ref \<Rightarrow> pkey option \<Rightarrow> ref \<Rightarrow> database \<Rightarrow> ref \<times> database" where
  "wrap_obj tn rcd col obj s =
     (case map_of (wrapped s) obj of
        Some p \<Rightarrow> (p, s)
      | None \<Rightarrow> (Prox tn rcd col obj, s\<lparr>wrapped := wrapped s @ [(obj, Prox tn rcd col obj)]\<rparr>))"

definition wrap :: "string \<Rightarrow> ref \<Rightarrow> pkey option \<Rightarrow> val \<Rightarrow> database \<Rightarrow> val \<times> database" where
  "wrap tn rcd col v s =
     (case v of
        VObj obj \<Rightarrow> (case wrap_obj tn rcd col obj s of (p, s1) \<Rightarrow> (VObj p, s1))
      | _ \<Rightarrow> (v, s))"

text \<open>\<^verbatim>\<open>_wrapRecord\<close>.\<close>

definition wrapRecord :: "string \<Rightarrow> ref \<Rightarrow> database \<Rightarrow> ref \<times> database" where
  "wrapRecord tn rcd s = wrap_obj tn rcd None rcd s"

text \<open>
  \<^verbatim>\<open>onUpdateRecord\<close>: the event goes to the innermost open frame; a \<^verbatim>\<open>set\<close> or \<^verbatim>\<open>delete\<close>
  of a field of the record itself moves the record between the buckets of that column's
  index, when the column has one.
\<close>

definition push_change :: "event \<Rightarrow> database \<Rightarrow> database" where
  "push_change ev s =
     (if length (transactions s) > 0
      then s\<lparr>transactions := butlast (transactions s) @ [last (transactions s) @ [ev]]\<rparr>
      else s)"

definition move_bucket :: "val \<Rightarrow> val \<Rightarrow> ref \<Rightarrow> (val \<times> ref list) list \<Rightarrow> (val \<times> ref list) list" where
  "move_bucket old new r index =
     (let index1 = (case map_of index old of
                      Some oldSet \<Rightarrow> AList.update old (set_delete r oldSet) index
                    | None \<Rightarrow> index)
      in case map_of index1 new of
           Some newSet \<Rightarrow> AList.update new (set_add r newSet) index1
         | None \<Rightarrow> AList.update new [r] index1)"

definition reindex :: "event \<Rightarrow> val \<Rightarrow> database \<Rightarrow> database" where
  "reindex ev new s =
     (if Some (erecord ev) = eobject ev then
        (case map_of (data s) (etableName ev) of
           None \<Rightarrow> s
         | Some schema \<Rightarrow>
             (case ekey ev of
                Some (KStr c) \<Rightarrow>
                  (case map_of (indices schema) c of
                     None \<Rightarrow> s
                   | Some index \<Rightarrow>
                       s\<lparr>data := AList.update (etableName ev)
                          (schema\<lparr>indices := AList.update c
                             (move_bucket (eoldValue ev) new (erecord ev) index) (indices schema)\<rparr>)
                          (data s)\<rparr>)
              | _ \<Rightarrow> s))
      else s)"

definition onUpdateRecord :: "event \<Rightarrow> database \<Rightarrow> database" where
  "onUpdateRecord ev s =
     (let s1 = push_change ev s
      in if etype ev = ev_set then reindex ev (enewValue ev) s1
         else if etype ev = ev_delete then reindex ev VUndefined s1
         else s1)"

text \<open>
  \<^verbatim>\<open>obj[key]\<close> on any reference. On a proxy this is the \<^verbatim>\<open>get\<close> trap for a data property:
  a \<^verbatim>\<open>Map\<close>, \<^verbatim>\<open>Set\<close> or \<^verbatim>\<open>Date\<close> target answers with the target's own value, any other
  target with the wrapped value, under the column name \<^verbatim>\<open>colName ?? property\<close>.
\<close>

fun js_get :: "ref \<Rightarrow> pkey \<Rightarrow> database \<Rightarrow> val \<times> database" where
  "js_get (Raw a) k s = (raw_get (heap_at (heap s) a) k, s)"
| "js_get (Prox tn rcd col tgt) k s =
     (let curColName = (case col of Some c \<Rightarrow> c | None \<Rightarrow> k);
          (v, s1) = js_get tgt k s
      in if kind_of s tgt = KMap \<or> kind_of s tgt = KSet \<or> kind_of s tgt = KDate then (v, s1)
         else wrap tn rcd (Some curColName) v s1)"

text \<open>\<^verbatim>\<open>obj[key] = value\<close>; on a proxy, the \<^verbatim>\<open>set\<close> trap.\<close>

fun js_set :: "ref \<Rightarrow> pkey \<Rightarrow> val \<Rightarrow> database \<Rightarrow> database" where
  "js_set (Raw a) k v s = s\<lparr>heap := (heap s)[a := raw_set (heap_at (heap s) a) k v]\<rparr>"
| "js_set (Prox tn rcd col tgt) k v s =
     (let curColName = (case col of Some c \<Rightarrow> c | None \<Rightarrow> k);
          (old, s1) = js_get tgt k s;
          (wv, s2) = wrap tn rcd (Some curColName) v s1;
          s3 = js_set tgt k wv s2;
          (r, s4) = wrapRecord tn rcd s3;
          (ob, s5) = wrap_obj tn tgt (Some curColName) tgt s4;
          (ov, s6) = wrap tn rcd (Some curColName) old s5;
          (nv, s7) = wrap tn rcd (Some curColName) v s6
      in onUpdateRecord
           (Event ev_set tn r (Some curColName) (Some ob) (Some k) ov nv VUndefined VUndefined []) s7)"

text \<open>\<^verbatim>\<open>delete obj[key]\<close>; on a proxy, the \<^verbatim>\<open>deleteProperty\<close> trap.\<close>

fun js_delete :: "ref \<Rightarrow> pkey \<Rightarrow> database \<Rightarrow> database" where
  "js_delete (Raw a) k s = s\<lparr>heap := (heap s)[a := raw_delete (heap_at (heap s) a) k]\<rparr>"
| "js_delete (Prox tn rcd col tgt) k s =
     (let curColName = (case col of Some c \<Rightarrow> c | None \<Rightarrow> k);
          (old, s1) = js_get tgt k s;
          s2 = js_delete tgt k s1;
          (r, s3) = wrapRecord tn rcd s2;
          (ob, s4) = wrap_obj tn tgt (Some curColName) tgt s3;
          (ov, s5) = wrap tn rcd (Some curColName) old s4
      in onUpdateRecord
           (Event ev_delete tn r (Some curColName) (Some ob) (Some k) ov VUndefined VUndefined VUndefined []) s5)"

text \<open>
  \<^verbatim>\<open>obj.m(...args)\<close> on any reference. On a proxy, the \<^verbatim>\<open>get\<close> trap chooses the function
  by the kind of the target: the mutating methods of a \<^verbatim>\<open>Map\<close> or \<^verbatim>\<open>Set\<close> report the
  event first and then run on the target; \<^verbatim>\<open>get\<close> wraps what the target returns (with
  the target in the place of the record); the other methods of a \<^verbatim>\<open>Map\<close>, \<^verbatim>\<open>Set\<close> or
  \<^verbatim>\<open>Date\<close> are bound to the target; the five list methods run on the target first and
  report afterwards. Any other property is read and wrapped like a field and, not being a
  function, makes the call a \<^verbatim>\<open>TypeError\<close> (fields holding functions are never called).
\<close>

fun js_call :: "ref \<Rightarrow> jsmethod \<Rightarrow> val list \<Rightarrow> database \<Rightarrow> (error + val) \<times> database" where
  "js_call (Raw a) m as s = (case raw_call a m as (heap s) of (res, h) \<Rightarrow> (res, s\<lparr>heap := h\<rparr>))"
| "js_call (Prox tn rcd col tgt) m as s =
     (let curColName = (case col of Some c \<Rightarrow> c | None \<Rightarrow> KStr (method_name m));
          k = kind_of s tgt
      in if (k = KMap \<or> k = KSet) \<and> m \<in> {m_add, m_set, m_delete, m_clear} then
           (let (r, s1) = wrapRecord tn rcd s;
                (ob, s2) = wrap_obj tn tgt (Some curColName) tgt s1
            in if m \<in> {m_set, m_delete} \<and> k = KMap then
                 (case js_call tgt m_get [arg 0 as] s2 of
                    (Inl e, s3) \<Rightarrow> (Inl e, s3)
                  | (Inr old, s3) \<Rightarrow>
                      (let (ov, s4) = wrap tn rcd (Some curColName) old s3;
                           s5 = onUpdateRecord
                                  (Event (ev_method m) tn r (Some curColName) (Some ob)
                                     (Some (KStr (method_name m))) ov VUndefined VUndefined VUndefined as) s4
                       in js_call tgt m as s5))
               else
                 (let s3 = onUpdateRecord
                             (Event (ev_method m) tn r (Some curColName) (Some ob)
                                (Some (KStr (method_name m))) VUndefined VUndefined VUndefined VUndefined as) s2
                  in js_call tgt m as s3))
         else if (k = KMap \<or> k = KSet) \<and> m = m_get then
           (case js_call tgt m_get [arg 0 as] s of
              (Inl e, s1) \<Rightarrow> (Inl e, s1)
            | (Inr v, s1) \<Rightarrow> (case wrap tn tgt (Some curColName) v s1 of (wv, s2) \<Rightarrow> (Inr wv, s2)))
         else if k = KMap \<or> k = KSet \<or> k = KDate then js_call tgt m as s
         else if k = KArray \<and> m \<in> {m_pop, m_shift} then
           (case js_call tgt m as s of
              (Inl e, s1) \<Rightarrow> (Inl e, s1)
            | (Inr deletedItems, s1) \<Rightarrow>
                (let (r, s2) = wrapRecord tn rcd s1;
                     (ob, s3) = wrap_obj tn tgt (Some curColName) tgt s2;
                     (dv, s4) = wrap tn rcd (Some curColName) deletedItems s3
                 in (Inr deletedItems,
                     onUpdateRecord
                       (Event (ev_method m) tn r (Some curColName) (Some ob)
                          (Some (KStr (method_name m))) VUndefined VUndefined dv VUndefined as) s4)))
         else if k = KArray \<and> m \<in> {m_push, m_unshift} then
           (case js_call tgt m as s of
              (Inl e, s1) \<Rightarrow> (Inl e, s1)
            | (Inr deletedItems, s1) \<Rightarrow>
                (let (r, s2) = wrapRecord tn rcd s1;
                     (ob, s3) = wrap_obj tn tgt (Some curColName) tgt s2
                 in (Inr deletedItems,
                     onUpdateRecord
                       (Event (ev_method m) tn r (Some curColName) (Some ob)
                          (Some (KStr (method_name m))) VUndefined VUndefined VUndefined VUndefined as) s3)))
         else if k = KArray \<and> m = m_splice then
           (case js_call tgt m as s of
              (Inl e, s1) \<Rightarrow> (Inl e, s1)
            | (Inr deletedItems, s1) \<Rightarrow>
                (let (r, s2) = wrapRecord tn rcd s1;
                     (ob, s3) = wrap_obj tn tgt (Some curColName) tgt s2;
                     (dv, s4) = wrap tn rcd (Some curColName) deletedItems s3
                 in (Inr deletedItems,
                     onUpdateRecord
                       (Event (ev_method m_splice) tn r (Some curColName) (Some ob)
                          (Some (KStr (method_name m))) VUndefined VUndefined VUndefined dv as) s4)))
         else
           (let (v, s1) = js_get tgt (KStr (method_name m)) s;
                (wv, s2) = wrap tn rcd (Some curColName) v s1
            in (Inl TypeError, s2)))"

text \<open>
  The elements an iteration over an array yields (the spread \<^verbatim>\<open>...xs\<close>): each element is
  read through \<^verbatim>\<open>xs[i]\<close>, so a proxy yields wrapped elements.
\<close>

fun read_elems :: "ref \<Rightarrow> nat list \<Rightarrow> database \<Rightarrow> val list \<times> database" where
  "read_elems r [] s = ([], s)"
| "read_elems r (i # is) s =
     (let (v, s1) = js_get r (KStr (show_nat i)) s;
          (vs, s2) = read_elems r is s1
      in (v # vs, s2))"

definition spread :: "val \<Rightarrow> database \<Rightarrow> (error + val list) \<times> database" where
  "spread v s =
     (case v of
        VObj r \<Rightarrow>
          (if kind_of s r = KArray then
             (case js_get r (KStr ''length'') s of
                (VNum n, s1) \<Rightarrow> (case read_elems r [0..<nat n] s1 of (vs, s2) \<Rightarrow> (Inr vs, s2))
              | (other, s1) \<Rightarrow> (Inr [], s1))
           else (Inl TypeError, s))
      | _ \<Rightarrow> (Inl TypeError, s))"

subsection \<open>Tables and indices\<close>

text \<open>
  \<^verbatim>\<open>_data\<close> and the \<^verbatim>\<open>indices\<close> of a table are plain objects used as dictionaries, so
  \<^verbatim>\<open>this._data[tableName]\<close> and \<^verbatim>\<open>indices[colName]\<close> also find the members that
  \<^verbatim>\<open>Object.prototype\<close> defines, listed below: under such a name the tests
  \<^verbatim>\<open>if (!this._data[tableName])\<close> and \<^verbatim>\<open>if (index)\<close> of the source pass with no table and no
  index there. The association lists of the model hold the own properties only; the
  operations below are those of the source for table and column names that are \<open>own_name\<close>s.
\<close>

definition object_prototype_names :: "string list" where
  "object_prototype_names =
     [''constructor'', ''hasOwnProperty'', ''isPrototypeOf'', ''propertyIsEnumerable'',
      ''toLocaleString'', ''toString'', ''valueOf'', ''__defineGetter__'', ''__defineSetter__'',
      ''__lookupGetter__'', ''__lookupSetter__'', ''__proto__'']"

definition own_name :: "string \<Rightarrow> bool" where
  "own_name name \<longleftrightarrow> name \<notin> set object_prototype_names"

definition tableExists :: "string \<Rightarrow> database \<Rightarrow> bool" where
  "tableExists tableName s = (map_of (data s) tableName \<noteq> None)"

definition no_table :: "string \<Rightarrow> string" where
  "no_table tableName = ''Table '' @ quoted tableName @ '' does not exist.''"

text \<open>An update of \<^verbatim>\<open>this._data[tableName]\<close> in place.\<close>

definition upd_table :: "string \<Rightarrow> (table \<Rightarrow> table) \<Rightarrow> database \<Rightarrow> database" where
  "upd_table tableName f s =
     (case map_of (data s) tableName of
        None \<Rightarrow> s
      | Some t \<Rightarrow> s\<lparr>data := AList.update tableName (f t) (data s)\<rparr>)"

text \<open>\<^verbatim>\<open>if (!indexMap.has(v)) indexMap.set(v, new Set()); indexMap.get(v).add(r)\<close>.\<close>

definition bucket_add :: "val \<Rightarrow> ref \<Rightarrow> (val \<times> ref list) list \<Rightarrow> (val \<times> ref list) list" where
  "bucket_add v r indexMap =
     (case map_of indexMap v of
        None \<Rightarrow> AList.update v [r] indexMap
      | Some b \<Rightarrow> AList.update v (set_add r b) indexMap)"

text \<open>\<^verbatim>\<open>if (indexMap.has(v)) indexMap.get(v).delete(r)\<close>.\<close>

definition bucket_delete :: "val \<Rightarrow> ref \<Rightarrow> (val \<times> ref list) list \<Rightarrow> (val \<times> ref list) list" where
  "bucket_delete v r indexMap =
     (case map_of indexMap v of
        None \<Rightarrow> indexMap
      | Some b \<Rightarrow> AList.update v (set_delete r b) indexMap)"

text \<open>
  The loop of \<^verbatim>\<open>addIndex\<close> over \<^verbatim>\<open>records.values()\<close>: the stored record itself is read and
  put in the bucket.
\<close>

fun build_index :: "string \<Rightarrow> ref list \<Rightarrow> (val \<times> ref list) list \<Rightarrow> database
    \<Rightarrow> (val \<times> ref list) list \<times> database" where
  "build_index indexKey [] indexMap s = (indexMap, s)"
| "build_index indexKey (r # rs) indexMap s =
     (let (v, s1) = js_get r (KStr indexKey) s
      in build_index indexKey rs (if v \<noteq> VUndefined then bucket_add v r indexMap else indexMap) s1)"

definition addIndex :: "string \<Rightarrow> string \<Rightarrow> database \<Rightarrow> database" where
  "addIndex tableName indexKey s =
     (case map_of (data s) tableName of
        None \<Rightarrow> logError (no_table tableName) s
      | Some t \<Rightarrow>
          if map_of (indices t) indexKey \<noteq> None
          then logError (''Index '' @ quoted indexKey @ '' already exists in '' @ quoted tableName @ ''.'') s
          else (let (indexMap, s1) = build_index indexKey (map snd (records t)) [] s
                in upd_table tableName (\<lambda>t. t\<lparr>indices := AList.update indexKey indexMap (indices t)\<rparr>) s1))"

definition removeIndex :: "string \<Rightarrow> string \<Rightarrow> database \<Rightarrow> database" where
  "removeIndex tableName indexKey s =
     (case map_of (data s) tableName of
        None \<Rightarrow> logError (no_table tableName) s
      | Some t \<Rightarrow>
          if map_of (indices t) indexKey = None
          then logError (''Index '' @ quoted indexKey @ '' does not exist in '' @ quoted tableName @ ''.'') s
          else upd_table tableName (\<lambda>t. t\<lparr>indices := AList.delete indexKey (indices t)\<rparr>) s)"


definition createTable :: "string \<Rightarrow> string list \<Rightarrow> database \<Rightarrow> database" where
  "createTable tableName indexKeys s =
     (let s1 = (if map_of (data s) tableName = None
                then s\<lparr>data := AList.update tableName \<lparr>records = [], indices = [], lastUID = None\<rparr> (data s)\<rparr>
                else s)
      in fold (addIndex tableName) indexKeys s1)"

definition deleteTable :: "string \<Rightarrow> database \<Rightarrow> database" where
  "deleteTable tableName s =
     (if map_of (data s) tableName = None then logError (no_table tableName) s
      else s\<lparr>data := AList.delete tableName (data s)\<rparr>)"

subsection \<open>Records\<close>

text \<open>\<^verbatim>\<open>getNextUID\<close> (\<^verbatim>\<open>lastUID || BigInt(0)\<close>, plus one) and \<^verbatim>\<open>reserveNextUID\<close>.\<close>

definition getNextUID :: "table \<Rightarrow> int" where
  "getNextUID t = (case lastUID t of None \<Rightarrow> 0 | Some u \<Rightarrow> if u = 0 then 0 else u) + 1"

definition reserveNextUID :: "string \<Rightarrow> database \<Rightarrow> int \<times> database" where
  "reserveNextUID tableName s =
     (case map_of (data s) tableName of
        None \<Rightarrow> (1, s)
      | Some t \<Rightarrow> (getNextUID t, upd_table tableName (\<lambda>t. t\<lparr>lastUID := Some (getNextUID t)\<rparr>) s))"

text \<open>
  The loop of \<^verbatim>\<open>addRecord\<close> and \<^verbatim>\<open>setRecord\<close> over \<^verbatim>\<open>Object.entries(indices)\<close>: the column is
  read from the (wrapped) record, and a value other than \<^verbatim>\<open>undefined\<close> puts the record in
  the bucket of that value.
\<close>

fun index_record :: "ref \<Rightarrow> (string \<times> (val \<times> ref list) list) list \<Rightarrow> database
    \<Rightarrow> (string \<times> (val \<times> ref list) list) list \<times> database" where
  "index_record wr [] s = ([], s)"
| "index_record wr ((colName, indexMap) # rest) s =
     (let (v, s1) = js_get wr (KStr colName) s;
          (rest', s2) = index_record wr rest s1
      in ((colName, if v \<noteq> VUndefined then bucket_add v wr indexMap else indexMap) # rest', s2))"

text \<open>What \<^verbatim>\<open>addRecord\<close> and \<^verbatim>\<open>setRecord\<close> share once the identifier is on the record.\<close>

definition insert_record :: "string \<Rightarrow> ref \<Rightarrow> bool \<Rightarrow> database \<Rightarrow> ref \<times> database" where
  "insert_record tableName rcd wrapd s =
     (let (idv, s1) = js_get rcd UniqueID s;
          s2 = upd_table tableName (\<lambda>t. t\<lparr>records := AList.update idv rcd (records t)\<rparr>) s1;
          (wrappedRecord, s3) = (if wrapd then wrapRecord tableName rcd s2 else (rcd, s2));
          (idx, s4) = index_record wrappedRecord
                        (case map_of (data s3) tableName of None \<Rightarrow> [] | Some t \<Rightarrow> indices t) s3;
          s5 = upd_table tableName (\<lambda>t. t\<lparr>indices := idx\<rparr>) s4
      in (wrappedRecord,
          onUpdateRecord
            (Event ev_added tableName wrappedRecord None None None
               VUndefined VUndefined VUndefined VUndefined []) s5))"

definition addRecord :: "string \<Rightarrow> ref \<Rightarrow> bool \<Rightarrow> database \<Rightarrow> (error + ref) \<times> database" where
  "addRecord tableName rcd wrapd s =
     (if map_of (data s) tableName = None then (Inl (Error (no_table tableName)), s)
      else (let (uid, s1) = reserveNextUID tableName s;
                s2 = js_set rcd UniqueID (VBigInt uid) s1;
                (wrappedRecord, s3) = insert_record tableName rcd wrapd s2
            in (Inr wrappedRecord, s3)))"

definition setRecord :: "string \<Rightarrow> ref \<Rightarrow> int \<Rightarrow> bool \<Rightarrow> database \<Rightarrow> (error + ref) \<times> database" where
  "setRecord tableName rcd uid wrapd s =
     (if map_of (data s) tableName = None then (Inl (Error (no_table tableName)), s)
      else (let s1 = upd_table tableName
                       (\<lambda>t. if lastUID t = None \<or> lastUID t = Some 0 \<or> the (lastUID t) < uid
                            then t\<lparr>lastUID := Some uid\<rparr> else t) s;
                s2 = js_set rcd UniqueID (VBigInt uid) s1;
                (wrappedRecord, s3) = insert_record tableName rcd wrapd s2
            in (Inr wrappedRecord, s3)))"

text \<open>JavaScript falsiness, for \<^verbatim>\<open>!record[UniqueID]\<close>.\<close>

fun falsy :: "val \<Rightarrow> bool" where
  "falsy VUndefined = True"
| "falsy VNull = True"
| "falsy (VBool b) = (\<not> b)"
| "falsy (VNum n) = (n = 0)"
| "falsy VNaN = True"
| "falsy (VStr str) = (str = [])"
| "falsy (VBigInt n) = (n = 0)"
| "falsy v = False"

text \<open>The text of a value in a template string (exact for identifiers; other objects are not told apart).\<close>

fun to_string :: "val \<Rightarrow> string" where
  "to_string VUndefined = ''undefined''"
| "to_string VNull = ''null''"
| "to_string (VBool b) = (if b then ''true'' else ''false'')"
| "to_string (VNum n) = show_int n"
| "to_string VNaN = ''NaN''"
| "to_string (VStr str) = str"
| "to_string (VBigInt n) = show_int n"
| "to_string v = ''[object Object]''"

text \<open>The loop of \<^verbatim>\<open>removeRecord\<close> over \<^verbatim>\<open>Object.entries(indices)\<close>.\<close>

fun unindex_record :: "ref \<Rightarrow> (string \<times> (val \<times> ref list) list) list \<Rightarrow> database
    \<Rightarrow> (string \<times> (val \<times> ref list) list) list \<times> database" where
  "unindex_record rcd [] s = ([], s)"
| "unindex_record rcd ((colName, indexMap) # rest) s =
     (let (v, s1) = js_get rcd (KStr colName) s;
          (rest', s2) = unindex_record rcd rest s1
      in ((colName, if v \<noteq> VUndefined then bucket_delete v rcd indexMap else indexMap) # rest', s2))"

definition removeRecord :: "string \<Rightarrow> ref \<Rightarrow> database \<Rightarrow> database" where
  "removeRecord tableName rcd s =
     (case map_of (data s) tableName of
        None \<Rightarrow> logError (no_table tableName) s
      | Some t \<Rightarrow>
          (let (idv, s1) = js_get rcd UniqueID s
           in if falsy idv then logError ''Could not find UID in record object for removal.'' s1
              else if map_of (records t) idv = None
              then logError (''Record with id '' @ quoted (to_string idv) @ '' does not exist in ''
                               @ quoted tableName @ ''.'') s1
              else (let s2 = upd_table tableName (\<lambda>t. t\<lparr>records := AList.delete idv (records t)\<rparr>) s1;
                        (idx, s3) = unindex_record rcd (indices t) s2;
                        s4 = upd_table tableName (\<lambda>t. t\<lparr>indices := idx\<rparr>) s3
                    in onUpdateRecord
                         (Event ev_removed tableName rcd None None None
                            VUndefined VUndefined VUndefined VUndefined []) s4)))"

definition getRecord :: "string \<Rightarrow> int \<Rightarrow> bool \<Rightarrow> database \<Rightarrow> ref option \<times> database" where
  "getRecord tableName uid wrapd s =
     (case map_of (data s) tableName of
        None \<Rightarrow> (None, logError (no_table tableName) s)
      | Some t \<Rightarrow>
          (case map_of (records t) (VBigInt uid) of
             None \<Rightarrow> (None, s)
           | Some rcd \<Rightarrow>
               if wrapd then (case wrapRecord tableName rcd s of (p, s1) \<Rightarrow> (Some p, s1))
               else (Some rcd, s)))"

text \<open>\<^verbatim>\<open>getAllRecords\<close> reads \<^verbatim>\<open>this._data[tableName].records\<close> without a check.\<close>

definition getAllRecords :: "string \<Rightarrow> database \<Rightarrow> (error + ref list) \<times> database" where
  "getAllRecords tableName s =
     (case map_of (data s) tableName of
        None \<Rightarrow> (Inl TypeError, s)
      | Some t \<Rightarrow> (Inr (map snd (records t)), s))"

text \<open>\<^verbatim>\<open>records.filter(record => record[colName] === value)\<close>.\<close>

fun filter_column :: "string \<Rightarrow> val \<Rightarrow> ref list \<Rightarrow> database \<Rightarrow> ref list \<times> database" where
  "filter_column colName v [] s = ([], s)"
| "filter_column colName v (r # rs) s =
     (let (x, s1) = js_get r (KStr colName) s;
          (out, s2) = filter_column colName v rs s1
      in (if strict_eq x v then r # out else out, s2))"

text \<open>\<^verbatim>\<open>records.map(record => this._wrapRecord(tableName, record))\<close>.\<close>

fun wrap_all :: "string \<Rightarrow> ref list \<Rightarrow> database \<Rightarrow> ref list \<times> database" where
  "wrap_all tableName [] s = ([], s)"
| "wrap_all tableName (r # rs) s =
     (let (p, s1) = wrapRecord tableName r s;
          (ps, s2) = wrap_all tableName rs s1
      in (p # ps, s2))"

definition getRecordsByColumn :: "string \<Rightarrow> string \<Rightarrow> val \<Rightarrow> bool \<Rightarrow> database \<Rightarrow> ref list \<times> database" where
  "getRecordsByColumn tableName colName v wrapd s =
     (case map_of (data s) tableName of
        None \<Rightarrow> ([], logError (no_table tableName) s)
      | Some t \<Rightarrow>
          (let (recs, s1) =
                 (case map_of (indices t) colName of
                    Some indexMap \<Rightarrow> ((case map_of indexMap v of Some b \<Rightarrow> b | None \<Rightarrow> []), s)
                  | None \<Rightarrow> filter_column colName v (map snd (records t)) s)
           in if wrapd then wrap_all tableName recs s1 else (recs, s1)))"

definition removeRecordsByColumn :: "string \<Rightarrow> string \<Rightarrow> val \<Rightarrow> bool \<Rightarrow> database \<Rightarrow> ref list \<times> database" where
  "removeRecordsByColumn tableName colName v wrapd s =
     (let (entries, s1) = getRecordsByColumn tableName colName v wrapd s
      in (entries, fold (removeRecord tableName) entries s1))"

subsection \<open>Transactions\<close>

definition isInTransaction :: "database \<Rightarrow> bool" where
  "isInTransaction s = (length (transactions s) > 0)"

definition beginTransaction :: "database \<Rightarrow> database" where
  "beginTransaction s = s\<lparr>transactions := transactions s @ [[]]\<rparr>"

definition commitTransaction :: "database \<Rightarrow> (error + unit) \<times> database" where
  "commitTransaction s =
     (if length (transactions s) = 0
      then (Inl (Error ''No transaction to commit. Did you forget to call beginTransaction()?''), s)
      else (Inr (), s\<lparr>transactions := butlast (transactions s)\<rparr>))"

text \<open>A method call whose result is dropped; an exception is kept.\<close>

definition call_stmt :: "ref \<Rightarrow> jsmethod \<Rightarrow> val list \<Rightarrow> database \<Rightarrow> (error + unit) \<times> database" where
  "call_stmt r m as s = (case js_call r m as s of (Inl e, s1) \<Rightarrow> (Inl e, s1) | (Inr v, s1) \<Rightarrow> (Inr (), s1))"

text \<open>
  One turn of the loop of \<^verbatim>\<open>rollbackTransaction\<close>: the \<^verbatim>\<open>switch\<close> on the type of the change.
  Every access goes through \<^verbatim>\<open>change.object\<close>, the wrapped object the event holds. A
  change without an object (no event of these types is made so) is a \<^verbatim>\<open>TypeError\<close>.
\<close>

definition rollback_change :: "event \<Rightarrow> database \<Rightarrow> (error + unit) \<times> database" where
  "rollback_change change s =
     (case etype change of
        ev_added \<Rightarrow> (Inr (), removeRecord (etableName change) (erecord change) s)
      | ev_removed \<Rightarrow>
          (case addRecord (etableName change) (erecord change) False s of
             (Inl e, s1) \<Rightarrow> (Inl e, s1)
           | (Inr r, s1) \<Rightarrow> (Inr (), s1))
      | ev_set \<Rightarrow>
          (case (eobject change, ekey change) of
             (Some ob, Some k) \<Rightarrow> (Inr (), js_set ob k (eoldValue change) s)
           | _ \<Rightarrow> (Inl TypeError, s))
      | ev_delete \<Rightarrow>
          (case (eobject change, ekey change) of
             (Some ob, Some k) \<Rightarrow> (Inr (), js_set ob k (eoldValue change) s)
           | _ \<Rightarrow> (Inl TypeError, s))
      | ev_method m \<Rightarrow>
          (case eobject change of
             None \<Rightarrow> (Inl TypeError, s)
           | Some ob \<Rightarrow>
               (case m of
                  m_add \<Rightarrow> call_stmt ob m_delete [arg 0 (eargs change)] s
                | m_delete \<Rightarrow>
                    if kind_of s ob = KMap
                    then call_stmt ob m_set [arg 0 (eargs change), eoldValue change] s
                    else call_stmt ob m_add [arg 0 (eargs change)] s
                | m_set \<Rightarrow>
                    (case js_call ob m_has [arg 0 (eargs change)] s of
                       (Inl e, s1) \<Rightarrow> (Inl e, s1)
                     | (Inr b, s1) \<Rightarrow>
                         if \<not> falsy b
                         then call_stmt ob m_set [arg 0 (eargs change), arg 1 (eargs change)] s1
                         else call_stmt ob m_delete [arg 0 (eargs change)] s1)
                | m_clear \<Rightarrow> (Inr (), s)
                | m_pop \<Rightarrow>
                    if kind_of s ob = KArray then call_stmt ob m_push [edeletedValue change] s
                    else (Inl (Error ''Invalid object type for pop method.''), s)
                | m_shift \<Rightarrow>
                    if kind_of s ob = KArray then call_stmt ob m_unshift [edeletedValue change] s
                    else (Inl (Error ''Invalid object type for shift method.''), s)
                | m_push \<Rightarrow>
                    if kind_of s ob = KArray then
                      (case js_get ob (KStr ''length'') s of
                         (len, s1) \<Rightarrow> if 0 < to_integer len then call_stmt ob m_pop [] s1 else (Inr (), s1))
                    else (Inl (Error ''Invalid object type for pop method.''), s)
                | m_unshift \<Rightarrow>
                    if kind_of s ob = KArray then
                      (case js_get ob (KStr ''length'') s of
                         (len, s1) \<Rightarrow> if 0 < to_integer len then call_stmt ob m_shift [] s1 else (Inr (), s1))
                    else (Inl (Error ''Invalid object type for shift method.''), s)
                | m_splice \<Rightarrow>
                    if kind_of s ob = KArray then
                      (case call_stmt ob m_splice
                              [arg 0 (eargs change), VNum (max 0 (int (length (eargs change)) - 2))] s of
                         (Inl e, s1) \<Rightarrow> (Inl e, s1)
                       | (Inr u, s1) \<Rightarrow>
                           (case spread (edeletedValues change) s1 of
                              (Inl e, s2) \<Rightarrow> (Inl e, s2)
                            | (Inr dvs, s2) \<Rightarrow> call_stmt ob m_splice ([arg 0 (eargs change), VNum 0] @ dvs) s2))
                    else (Inl (Error ''Invalid object type for splice method.''), s)
                | _ \<Rightarrow> (Inr (), s))))"

text \<open>The loop itself: the first exception ends it.\<close>

fun rollback_changes :: "event list \<Rightarrow> database \<Rightarrow> (error + unit) \<times> database" where
  "rollback_changes [] s = (Inr (), s)"
| "rollback_changes (change # changes) s =
     (case rollback_change change s of
        (Inl e, s1) \<Rightarrow> (Inl e, s1)
      | (Inr u, s1) \<Rightarrow> rollback_changes changes s1)"

definition rollbackTransaction :: "database \<Rightarrow> (error + unit) \<times> database" where
  "rollbackTransaction s =
     (if length (transactions s) = 0
      then (Inl (Error ''No transaction to rollback. Did you forget to call beginTransaction()?''), s)
      else rollback_changes (rev (last (transactions s))) (s\<lparr>transactions := butlast (transactions s)\<rparr>))"

section \<open>The codec\<close>

text \<open>
  \<^verbatim>\<open>EncodedObj\<close>, the wire form. \<open>EncodedValue\<close> carries the \<^verbatim>\<open>typeof\<close> tag and a primitive;
  the composite nodes carry their reference id.
\<close>

datatype prim = PUndefined | PBool bool | PNum int | PNaN | PStr string

datatype wire =
    EncodedValue string prim
  | EncodedDate string nat
  | EncodedArray "wire list" nat
  | EncodedMap "(wire \<times> wire) list" nat
  | EncodedSet "wire list" nat
  | EncodedObject "(wire \<times> wire) list" nat
  | EncodedReference nat
  | EncodedSymbol "string option"
  | EncodedBigInt string
  | EncodedNull

fun val_of_prim :: "prim \<Rightarrow> val" where
  "val_of_prim PUndefined = VUndefined"
| "val_of_prim (PBool b) = VBool b"
| "val_of_prim (PNum n) = VNum n"
| "val_of_prim PNaN = VNaN"
| "val_of_prim (PStr str) = VStr str"

subsection \<open>Encode\<close>

text \<open>
  The state of one encoding: the map \<^verbatim>\<open>refs\<close> from object to id, in insertion order (its
  size is the next id), and the symbol table, which \<^verbatim>\<open>Encode\<close> extends.
\<close>

type_synonym enc_state = "(ref \<times> nat) list \<times> (string \<times> nat) list"

text \<open>
  The symbol branch: the loop over the table counts the entries it has seen and returns
  the first name bound to the symbol; with no such name the symbol is stored under
  \<^verbatim>\<open>__unk<count>\<close>.
\<close>

fun find_symbol :: "nat \<Rightarrow> (string \<times> nat) list \<Rightarrow> nat \<Rightarrow> string + nat" where
  "find_symbol y [] seen = Inr seen"
| "find_symbol y ((name, y') # rest) seen = (if y' = y then Inl name else find_symbol y rest (Suc seen))"

definition encode_symbol :: "nat \<Rightarrow> (string \<times> nat) list \<Rightarrow> wire \<times> (string \<times> nat) list" where
  "encode_symbol y symbols =
     (case find_symbol y symbols 0 of
        Inl name \<Rightarrow> (EncodedSymbol (Some name), symbols)
      | Inr seen \<Rightarrow> (EncodedSymbol (Some (''__unk'' @ show_nat seen)),
                     AList.update (''__unk'' @ show_nat seen) y symbols))"

text \<open>
  The entries of a plain object in the order the two loops visit them: the string keys
  (\<^verbatim>\<open>for ... in\<close>), then the symbol keys (\<^verbatim>\<open>Object.getOwnPropertySymbols\<close>).
\<close>

fun string_entries :: "(pkey \<times> val) list \<Rightarrow> (val \<times> val) list" where
  "string_entries [] = []"
| "string_entries ((KStr k, v) # ps) = (VStr k, v) # string_entries ps"
| "string_entries ((KSym y, v) # ps) = string_entries ps"

fun symbol_entries :: "(pkey \<times> val) list \<Rightarrow> (val \<times> val) list" where
  "symbol_entries [] = []"
| "symbol_entries ((KStr k, v) # ps) = symbol_entries ps"
| "symbol_entries ((KSym y, v) # ps) = (VSym y, v) # symbol_entries ps"

text \<open>
  \<^verbatim>\<open>Encode(obj, symbols, refs, blocklist)\<close> over the heap \<open>h\<close>. The recursion follows the
  object graph, which may be cyclic, so it is bounded by fuel: \<open>None\<close> means the fuel ran out.
  A composite is given the id \<^verbatim>\<open>refs.size\<close> and entered in \<^verbatim>\<open>refs\<close> before its children are
  encoded. The codec is modelled on plain objects: a proxy is encoded under its own identity
  with the content of its target.
\<close>

function (sequential) Encode :: "nat \<Rightarrow> hobj list \<Rightarrow> val list \<Rightarrow> val \<Rightarrow> enc_state \<Rightarrow> (wire \<times> enc_state) option"
  and Encode_each :: "nat \<Rightarrow> hobj list \<Rightarrow> val list \<Rightarrow> val list \<Rightarrow> enc_state \<Rightarrow> (wire list \<times> enc_state) option"
  and Encode_entries :: "nat \<Rightarrow> hobj list \<Rightarrow> val list \<Rightarrow> (val \<times> val) list \<Rightarrow> enc_state
    \<Rightarrow> ((wire \<times> wire) list \<times> enc_state) option" where
  "Encode 0 h blocklist obj st = None"
| "Encode (Suc n) h blocklist obj (refs, symbols) =
     (case obj of
        VObj r \<Rightarrow>
          if obj \<in> set blocklist then Some (EncodedValue ''undefined'' PUndefined, (refs, symbols))
          else (case map_of refs r of
             Some i \<Rightarrow> Some (EncodedReference i, (refs, symbols))
           | None \<Rightarrow>
              (let rf = length refs; st1 = (refs @ [(r, rf)], symbols)
               in case heap_at h (raw_of r) of
                    HArray xs \<Rightarrow>
                      (case Encode_each n h blocklist xs st1 of
                         None \<Rightarrow> None
                       | Some (out, st2) \<Rightarrow> Some (EncodedArray out rf, st2))
                  | HDate d \<Rightarrow> Some (EncodedDate d rf, st1)
                  | HMap kvs \<Rightarrow>
                      (case Encode_entries n h blocklist kvs st1 of
                         None \<Rightarrow> None
                       | Some (out, st2) \<Rightarrow> Some (EncodedMap out rf, st2))
                  | HSet xs \<Rightarrow>
                      (case Encode_each n h blocklist xs st1 of
                         None \<Rightarrow> None
                       | Some (out, st2) \<Rightarrow> Some (EncodedSet out rf, st2))
                  | HObject ps \<Rightarrow>
                      (case Encode_entries n h blocklist (string_entries ps @ symbol_entries ps) st1 of
                         None \<Rightarrow> None
                       | Some (out, st2) \<Rightarrow> Some (EncodedObject out rf, st2))))
      | VNull \<Rightarrow>
          if obj \<in> set blocklist then Some (EncodedValue ''undefined'' PUndefined, (refs, symbols))
          else Some (EncodedNull, (refs, symbols))
      | VSym y \<Rightarrow> (case encode_symbol y symbols of (w, symbols1) \<Rightarrow> Some (w, (refs, symbols1)))
      | VFun f \<Rightarrow> Some (EncodedValue ''undefined'' PUndefined, (refs, symbols))
      | VBigInt i \<Rightarrow> Some (EncodedBigInt (show_int i), (refs, symbols))
      | VStr str \<Rightarrow> Some (EncodedValue ''string'' (PStr str), (refs, symbols))
      | VNum i \<Rightarrow> Some (EncodedValue ''number'' (PNum i), (refs, symbols))
      | VNaN \<Rightarrow> Some (EncodedValue ''number'' PNaN, (refs, symbols))
      | VBool b \<Rightarrow> Some (EncodedValue ''boolean'' (PBool b), (refs, symbols))
      | VUndefined \<Rightarrow> Some (EncodedValue ''undefined'' PUndefined, (refs, symbols)))"
| "Encode_each n h blocklist [] st = Some ([], st)"
| "Encode_each n h blocklist (x # xs) st =
     (case Encode n h blocklist x st of
        None \<Rightarrow> None
      | Some (w, st1) \<Rightarrow>
          (case Encode_each n h blocklist xs st1 of
             None \<Rightarrow> None
           | Some (ws, st2) \<Rightarrow> Some (w # ws, st2)))"
| "Encode_entries n h blocklist [] st = Some ([], st)"
| "Encode_entries n h blocklist ((k, v) # kvs) st =
     (case Encode n h blocklist k st of
        None \<Rightarrow> None
      | Some (wk, st1) \<Rightarrow>
          (case Encode n h blocklist v st1 of
             None \<Rightarrow> None
           | Some (wv, st2) \<Rightarrow>
               (case Encode_entries n h blocklist kvs st2 of
                  None \<Rightarrow> None
                | Some (ws, st3) \<Rightarrow> Some ((wk, wv) # ws, st3))))"
  by pat_completeness auto
termination
  by (relation "inv_image (less_than <*lex*> less_than) (\<lambda>x. case x of
         Inl (n, h, b, v, st) \<Rightarrow> (n, 0)
       | Inr (Inl (n, h, b, xs, st)) \<Rightarrow> (n, Suc (length xs))
       | Inr (Inr (n, h, b, kvs, st)) \<Rightarrow> (n, Suc (length kvs)))") auto

subsection \<open>Decode\<close>

text \<open>
  The state of one decoding: the heap the decoded objects are allocated in, the symbol
  table (extended with a new symbol for an unknown name), the next unused symbol, and the
  map \<^verbatim>\<open>refs\<close> from id to decoded object.
\<close>

record dec_state =
  dheap :: "hobj list"
  dsymbols :: "(string \<times> nat) list"
  dnext :: nat
  drefs :: "(nat \<times> val) list"

text \<open>The property key a decoded key stands for (objects are not told apart).\<close>

fun to_pkey :: "val \<Rightarrow> pkey" where
  "to_pkey (VStr str) = KStr str"
| "to_pkey (VSym y) = KSym y"
| "to_pkey v = KStr (to_string v)"

text \<open>\<^verbatim>\<open>let out = ...; refs.set(obj.ref, out)\<close>: the new object is the last of the heap.\<close>

definition alloc :: "hobj \<Rightarrow> nat \<Rightarrow> dec_state \<Rightarrow> nat \<times> dec_state" where
  "alloc ob rf st =
     (length (dheap st),
      st\<lparr>dheap := dheap st @ [ob], drefs := AList.update rf (VObj (Raw (length (dheap st)))) (drefs st)\<rparr>)"

text \<open>\<^verbatim>\<open>out.push(v)\<close> for an array, \<^verbatim>\<open>out.add(v)\<close> for a set.\<close>

definition store_item :: "nat \<Rightarrow> val \<Rightarrow> dec_state \<Rightarrow> dec_state" where
  "store_item out v st =
     (case heap_at (dheap st) out of
        HArray xs \<Rightarrow> st\<lparr>dheap := (dheap st)[out := HArray (xs @ [v])]\<rparr>
      | HSet xs \<Rightarrow> st\<lparr>dheap := (dheap st)[out := HSet (set_add v xs)]\<rparr>
      | _ \<Rightarrow> st)"

text \<open>
  \<^verbatim>\<open>out.set(k, v)\<close> for a map, \<^verbatim>\<open>out[k] = v\<close> for an object. The object \<^verbatim>\<open>out\<close> was made by
  \<^verbatim>\<open>{}\<close>, so the key \<^verbatim>\<open>__proto__\<close> is the accessor it inherits from \<^verbatim>\<open>Object.prototype\<close>: the
  assignment runs the setter, which changes the prototype of \<^verbatim>\<open>out\<close> when the value is an
  object or \<^verbatim>\<open>null\<close> and does nothing otherwise; in both cases \<^verbatim>\<open>out\<close> gets no property of
  its own. (The heap holds the own properties only.)
\<close>

definition store_entry :: "nat \<Rightarrow> val \<Rightarrow> val \<Rightarrow> dec_state \<Rightarrow> dec_state" where
  "store_entry out k v st =
     (case heap_at (dheap st) out of
        HMap kvs \<Rightarrow> st\<lparr>dheap := (dheap st)[out := HMap (AList.update k v kvs)]\<rparr>
      | HObject ps \<Rightarrow>
          if to_pkey k = KStr ''__proto__'' then st
          else st\<lparr>dheap := (dheap st)[out := HObject (AList.update (to_pkey k) v ps)]\<rparr>
      | _ \<Rightarrow> st)"

text \<open>
  \<^verbatim>\<open>Decode(obj, symbols, refs)\<close>. The only exception is the \<^verbatim>\<open>SyntaxError\<close> of
  \<^verbatim>\<open>BigInt(...)\<close>; a reference is looked up with \<^verbatim>\<open>refs.get(obj.val)\<close>, and the
  \<^verbatim>\<open>default\<close> case returns \<^verbatim>\<open>obj.val\<close>.
\<close>

function Decode :: "wire \<Rightarrow> dec_state \<Rightarrow> (error + val) \<times> dec_state"
  and Decode_each :: "nat \<Rightarrow> wire list \<Rightarrow> dec_state \<Rightarrow> (error + unit) \<times> dec_state"
  and Decode_entries :: "nat \<Rightarrow> (wire \<times> wire) list \<Rightarrow> dec_state \<Rightarrow> (error + unit) \<times> dec_state" where
  "Decode (EncodedArray ws rf) st =
     (case alloc (HArray []) rf st of
        (out, st1) \<Rightarrow>
          (case Decode_each out ws st1 of
             (Inl e, st2) \<Rightarrow> (Inl e, st2)
           | (Inr u, st2) \<Rightarrow> (Inr (VObj (Raw out)), st2)))"
| "Decode (EncodedDate d rf) st =
     (case alloc (HDate d) rf st of (out, st1) \<Rightarrow> (Inr (VObj (Raw out)), st1))"
| "Decode (EncodedMap es rf) st =
     (case alloc (HMap []) rf st of
        (out, st1) \<Rightarrow>
          (case Decode_entries out es st1 of
             (Inl e, st2) \<Rightarrow> (Inl e, st2)
           | (Inr u, st2) \<Rightarrow> (Inr (VObj (Raw out)), st2)))"
| "Decode (EncodedObject es rf) st =
     (case alloc (HObject []) rf st of
        (out, st1) \<Rightarrow>
          (case Decode_entries out es st1 of
             (Inl e, st2) \<Rightarrow> (Inl e, st2)
           | (Inr u, st2) \<Rightarrow> (Inr (VObj (Raw out)), st2)))"
| "Decode (EncodedReference i) st =
     (Inr (case map_of (drefs st) i of Some v \<Rightarrow> v | None \<Rightarrow> VUndefined), st)"
| "Decode (EncodedSet ws rf) st =
     (case alloc (HSet []) rf st of
        (out, st1) \<Rightarrow>
          (case Decode_each out ws st1 of
             (Inl e, st2) \<Rightarrow> (Inl e, st2)
           | (Inr u, st2) \<Rightarrow> (Inr (VObj (Raw out)), st2)))"
| "Decode (EncodedSymbol name) st =
     (case name of
        Some nm \<Rightarrow>
          (case map_of (dsymbols st) nm of
             Some y \<Rightarrow> (Inr (VSym y), st)
           | None \<Rightarrow> (Inr (VSym (dnext st)),
                      st\<lparr>dsymbols := AList.update nm (dnext st) (dsymbols st), dnext := Suc (dnext st)\<rparr>))
      | None \<Rightarrow> (Inr (VSym (dnext st)), st\<lparr>dnext := Suc (dnext st)\<rparr>))"
| "Decode (EncodedBigInt str) st =
     (case parse_int str of None \<Rightarrow> (Inl SyntaxError, st) | Some i \<Rightarrow> (Inr (VBigInt i), st))"
| "Decode EncodedNull st = (Inr VNull, st)"
| "Decode (EncodedValue tag p) st = (Inr (val_of_prim p), st)"
| "Decode_each out [] st = (Inr (), st)"
| "Decode_each out (w # ws) st =
     (case Decode w st of
        (Inl e, st1) \<Rightarrow> (Inl e, st1)
      | (Inr v, st1) \<Rightarrow> Decode_each out ws (store_item out v st1))"
| "Decode_entries out [] st = (Inr (), st)"
| "Decode_entries out ((wk, wv) # es) st =
     (case Decode wk st of
        (Inl e, st1) \<Rightarrow> (Inl e, st1)
      | (Inr k, st1) \<Rightarrow>
          (case Decode wv st1 of
             (Inl e, st2) \<Rightarrow> (Inl e, st2)
           | (Inr v, st2) \<Rightarrow> Decode_entries out es (store_entry out k v st2)))"
  by pat_completeness auto
termination
  by (relation "measure (\<lambda>x. case x of
         Inl (w, st) \<Rightarrow> size w
       | Inr (Inl (out, ws, st)) \<Rightarrow> size_list size ws
       | Inr (Inr (out, es, st)) \<Rightarrow> size_list (size_prod size size) es)") auto

section \<open>Relations between states\<close>

text \<open>
  \<open>only_cache s s'\<close>: from \<open>s\<close> to \<open>s'\<close> nothing changed but the \<^verbatim>\<open>_wrapped\<close> cache, which
  only gained entries. Reading through a handle does this and no more.
\<close>

definition only_cache :: "database \<Rightarrow> database \<Rightarrow> bool" where
  "only_cache s s' \<longleftrightarrow>
     heap s' = heap s \<and> data s' = data s \<and> transactions s' = transactions s \<and>
     console s' = console s \<and> (\<exists>ys. wrapped s' = wrapped s @ ys)"

text \<open>
  \<open>frames_kept ts ts'\<close>: the stack \<open>ts'\<close> has the frames of \<open>ts\<close>, all as they were except
  that the innermost may have gained events at its end. \<open>logs s s'\<close>: the stacks of two
  states are so related.
\<close>

definition frames_kept :: "event list list \<Rightarrow> event list list \<Rightarrow> bool" where
  "frames_kept ts ts' \<longleftrightarrow> (\<exists>evs. ts' = (if ts = [] then [] else butlast ts @ [last ts @ evs]))"

definition logs :: "database \<Rightarrow> database \<Rightarrow> bool" where
  "logs s s' \<longleftrightarrow> frames_kept (transactions s) (transactions s')"

text \<open>A reference to the plain object at \<open>a\<close>: the object itself or a proxy whose target it is.\<close>

definition direct_handle :: "ref \<Rightarrow> nat \<Rightarrow> bool" where
  "direct_handle wr a \<longleftrightarrow> wr = Raw a \<or> (\<exists>tn r c. wr = Prox tn r c (Raw a))"

text \<open>The cache as \<^verbatim>\<open>_wrap\<close> fills it: every entry maps an object to a proxy of that object.\<close>

definition cache_ok :: "database \<Rightarrow> bool" where
  "cache_ok s \<longleftrightarrow> (\<forall>(ob, p) \<in> set (wrapped s). \<exists>tn r c. p = Prox tn r c ob)"

subsection \<open>The index invariant\<close>

text \<open>
  A value that is not an object: \<^verbatim>\<open>_wrap\<close> returns it as it is, and \<^verbatim>\<open>===\<close> compares it by
  content.
\<close>

definition is_prim :: "val \<Rightarrow> bool" where
  "is_prim v \<longleftrightarrow> (case v of VObj r \<Rightarrow> False | _ \<Rightarrow> True)"

text \<open>The field \<open>k\<close> of the plain object at address \<open>a\<close>, read without any proxy.\<close>

definition col_at :: "database \<Rightarrow> nat \<Rightarrow> pkey \<Rightarrow> val" where
  "col_at s a k = raw_get (heap_at (heap s) a) k"

text \<open>
  The store puts a record in a bucket sometimes as the object itself (\<^verbatim>\<open>addIndex\<close>, and
  \<^verbatim>\<open>addRecord\<close> with \<^verbatim>\<open>wrapped = false\<close>) and sometimes as its handle. \<open>holds b a\<close>: the
  bucket \<open>b\<close> has a member that is the object at \<open>a\<close> or a proxy of it.
\<close>

definition holds :: "ref list \<Rightarrow> nat \<Rightarrow> bool" where
  "holds b a \<longleftrightarrow> (\<exists>x \<in> set b. raw_of x = a)"

text \<open>
  The two halves of the invariant for one record (the object at \<open>a\<close>) and one indexed
  column \<open>c\<close> with index \<open>m\<close>: a defined value has a bucket and the record is in it; with
  an undefined value the record is in no bucket.
\<close>

definition present :: "database \<Rightarrow> (val \<times> ref list) list \<Rightarrow> string \<Rightarrow> nat \<Rightarrow> bool" where
  "present s m c a \<longleftrightarrow>
     (col_at s a (KStr c) \<noteq> VUndefined \<longrightarrow>
        (case map_of m (col_at s a (KStr c)) of Some b \<Rightarrow> holds b a | None \<Rightarrow> False))"



text \<open>
  The condition under which the operations are shown to keep the invariant. The table
  exists; its records are plain objects of the heap, each filed under the identifier it
  carries, which is not an object; no column has two indices; every record with a defined
  value is in the bucket of that value; and every member of every bucket, a record of the
  table or not, has a defined value in the column. The last part gives the second half of
  the invariant.
\<close>

definition index_ok :: "database \<Rightarrow> string \<Rightarrow> bool" where
  "index_ok s tn \<longleftrightarrow>
     (case map_of (data s) tn of
        None \<Rightarrow> False
      | Some t \<Rightarrow>
          (\<forall>(uid, r) \<in> set (records t).
             is_prim uid \<and>
             (case r of
                Raw a \<Rightarrow> a < length (heap s) \<and> kind_of s r = KObject \<and> col_at s a UniqueID = uid
              | Prox tn' rcd col tgt \<Rightarrow> False)) \<and>
          distinct (map fst (indices t)) \<and>
          (\<forall>(c, m) \<in> set (indices t).
             (\<forall>(uid, r) \<in> set (records t). present s m c (raw_of r)) \<and>
             (\<forall>(k, b) \<in> set m. \<forall>x \<in> set b. col_at s (raw_of x) (KStr c) \<noteq> VUndefined)))"





text \<open>
  An index that is exact: on top of \<open>index_ok\<close>, every identifier of the table is a big
  integer not above \<^verbatim>\<open>lastUID\<close>, and every member of a bucket is a record of the table (the
  object itself or a proxy of it) whose value in the column is the key of the bucket.
\<close>

definition index_exact :: "database \<Rightarrow> string \<Rightarrow> bool" where
  "index_exact s tn \<longleftrightarrow>
     index_ok s tn \<and>
     (case map_of (data s) tn of
        None \<Rightarrow> False
      | Some t \<Rightarrow>
          (\<forall>(uid, r) \<in> set (records t).
             case uid of
               VBigInt u \<Rightarrow> (case lastUID t of Some l \<Rightarrow> u \<le> l | None \<Rightarrow> False)
             | _ \<Rightarrow> False) \<and>
          (\<forall>(c, m) \<in> set (indices t). \<forall>(k, b) \<in> set m. \<forall>x \<in> set b.
             col_at s (raw_of x) (KStr c) = k \<and> Raw (raw_of x) \<in> snd ` set (records t)))"





subsection \<open>Value graphs and their copies\<close>

text \<open>
  The value graphs of the codec's round trip: a value that is a primitive other than a
  symbol or a function, or a reference (not a proxy) to an object of the heap; and a heap
  whose objects hold only such values, plain objects under string keys other than
  \<^verbatim>\<open>__proto__\<close>. Keys of an object or a \<^verbatim>\<open>Map\<close> and members of a \<^verbatim>\<open>Set\<close> do not repeat, as in any
  JavaScript heap. A date is held as its ISO string, so only dates that have one are
  covered, and a list has no holes.
\<close>

fun plain_val :: "hobj list \<Rightarrow> val \<Rightarrow> bool" where
  "plain_val h (VObj (Raw a)) = (a < length h)"
| "plain_val h (VObj (Prox tn rcd col tgt)) = False"
| "plain_val h (VSym y) = False"
| "plain_val h (VFun f) = False"
| "plain_val h v = True"

fun plain_obj :: "hobj list \<Rightarrow> hobj \<Rightarrow> bool" where
  "plain_obj h (HObject ps) =
     (distinct (map fst ps) \<and>
      (\<forall>(k, v) \<in> set ps.
         (case k of KStr str \<Rightarrow> str \<noteq> ''__proto__'' | KSym y \<Rightarrow> False) \<and> plain_val h v))"
| "plain_obj h (HArray xs) = (\<forall>v \<in> set xs. plain_val h v)"
| "plain_obj h (HMap kvs) =
     (distinct (map fst kvs) \<and> (\<forall>(k, v) \<in> set kvs. plain_val h k \<and> plain_val h v))"
| "plain_obj h (HSet xs) = (distinct xs \<and> (\<forall>v \<in> set xs. plain_val h v))"
| "plain_obj h (HDate d) = True"

definition plain_heap :: "hobj list \<Rightarrow> bool" where
  "plain_heap h \<longleftrightarrow> (\<forall>ob \<in> set h. plain_obj h ob)"

text \<open>
  The copy of a value, of an object and of a heap cell under a table \<open>refs\<close> that numbers
  objects from 0: a reference to the object numbered \<open>i\<close> becomes the reference to the
  cell \<open>base + i\<close>; everything else is kept. (A reference the table does not know has no
  copy; \<open>known\<close> and \<open>closed\<close> below say that this does not occur.)
\<close>

fun rename :: "(ref \<times> nat) list \<Rightarrow> nat \<Rightarrow> val \<Rightarrow> val" where
  "rename refs base (VObj r) =
     (case map_of refs r of Some i \<Rightarrow> VObj (Raw (base + i)) | None \<Rightarrow> VUndefined)"
| "rename refs base v = v"

fun rename_obj :: "(ref \<times> nat) list \<Rightarrow> nat \<Rightarrow> hobj \<Rightarrow> hobj" where
  "rename_obj refs base (HObject ps) = HObject (map (\<lambda>(k, v). (k, rename refs base v)) ps)"
| "rename_obj refs base (HArray xs) = HArray (map (rename refs base) xs)"
| "rename_obj refs base (HMap kvs) =
     HMap (map (\<lambda>(k, v). (rename refs base k, rename refs base v)) kvs)"
| "rename_obj refs base (HSet xs) = HSet (map (rename refs base) xs)"
| "rename_obj refs base (HDate d) = HDate d"

definition cell :: "hobj list \<Rightarrow> (ref \<times> nat) list \<Rightarrow> nat \<Rightarrow> ref \<times> nat \<Rightarrow> hobj" where
  "cell h refs base = (\<lambda>(r, i). rename_obj refs base (heap_at h (raw_of r)))"

text \<open>The values an object holds.\<close>

fun children :: "hobj \<Rightarrow> val list" where
  "children (HObject ps) = map snd ps"
| "children (HArray xs) = xs"
| "children (HMap kvs) = map fst kvs @ map snd kvs"
| "children (HSet xs) = xs"
| "children (HDate d) = []"

text \<open>
  The table \<^verbatim>\<open>refs\<close> of \<^verbatim>\<open>Encode\<close> as the encoder builds it: the objects of the heap seen so
  far, each once, numbered in the order they were first seen.
\<close>

definition enc_inv :: "hobj list \<Rightarrow> (ref \<times> nat) list \<Rightarrow> bool" where
  "enc_inv h refs \<longleftrightarrow>
     map snd refs = [0..<length refs] \<and> distinct (map fst refs) \<and>
     (\<forall>(r, i) \<in> set refs. case r of Raw a \<Rightarrow> a < length h | Prox tn rcd col tgt \<Rightarrow> False)"

text \<open>
  A decoder state that has decoded the first \<open>k\<close> objects: they are the cells
  \<open>base, ..., base + k - 1\<close> of its heap, the last ones, and \<^verbatim>\<open>refs\<close> maps each number to its cell.
\<close>

definition dec_match :: "nat \<Rightarrow> nat \<Rightarrow> dec_state \<Rightarrow> bool" where
  "dec_match base k ds \<longleftrightarrow>
     length (dheap ds) = base + k \<and> (\<forall>i < k. map_of (drefs ds) i = Some (VObj (Raw (base + i))))"

text \<open>What \<^verbatim>\<open>out.push(v)\<close> or \<^verbatim>\<open>out.add(v)\<close>, and \<^verbatim>\<open>out.set(k, v)\<close> or \<^verbatim>\<open>out[k] = v\<close>, do to the cell of \<^verbatim>\<open>out\<close>.\<close>

fun push :: "hobj \<Rightarrow> val \<Rightarrow> hobj" where
  "push (HArray xs) v = HArray (xs @ [v])"
| "push (HSet xs) v = HSet (set_add v xs)"
| "push ob v = ob"

fun put :: "hobj \<Rightarrow> val \<times> val \<Rightarrow> hobj" where
  "put (HMap kvs) (k, v) = HMap (AList.update k v kvs)"
| "put (HObject ps) (k, v) =
     (if to_pkey k = KStr ''__proto__'' then HObject ps else HObject (AList.update (to_pkey k) v ps))"
| "put ob kv = ob"

text \<open>
  \<open>decodes h refs new w v\<close>: the wire form \<open>w\<close> of the value \<open>v\<close>, encoded when the table was
  \<open>refs\<close> and extending it by \<open>new\<close>, decodes in every decoder state that has the objects of
  \<open>refs\<close> to the copy of \<open>v\<close>, and adds to the heap the copies of the objects of \<open>new\<close>, in
  order, whatever the table becomes later. \<open>decodes_each\<close> and \<open>decodes_entries\<close> say the
  same of the children of a list or a set, and of the entries of a map or an object, which
  are also stored in the cell \<open>out\<close>.
\<close>

definition decodes :: "hobj list \<Rightarrow> (ref \<times> nat) list \<Rightarrow> (ref \<times> nat) list \<Rightarrow> wire \<Rightarrow> val \<Rightarrow> bool" where
  "decodes h refs new w v \<longleftrightarrow>
     (\<forall>later ds base. enc_inv h (refs @ new @ later) \<longrightarrow> dec_match base (length refs) ds \<longrightarrow>
        (\<exists>ds'. Decode w ds = (Inr (rename (refs @ new @ later) base v), ds') \<and>
               dec_match base (length refs + length new) ds' \<and>
               dheap ds' = dheap ds @ map (cell h (refs @ new @ later) base) new))"

definition decodes_each :: "hobj list \<Rightarrow> (ref \<times> nat) list \<Rightarrow> (ref \<times> nat) list \<Rightarrow> wire list \<Rightarrow> val list \<Rightarrow> bool" where
  "decodes_each h refs new ws xs \<longleftrightarrow>
     (\<forall>later ds base out. enc_inv h (refs @ new @ later) \<longrightarrow> dec_match base (length refs) ds \<longrightarrow>
        out < length (dheap ds) \<longrightarrow>
        (\<exists>ds'. Decode_each out ws ds = (Inr (), ds') \<and>
               dec_match base (length refs + length new) ds' \<and>
               dheap ds' = (dheap ds)[out := foldl push (dheap ds ! out)
                                                (map (rename (refs @ new @ later) base) xs)]
                           @ map (cell h (refs @ new @ later) base) new))"

definition decodes_entries :: "hobj list \<Rightarrow> (ref \<times> nat) list \<Rightarrow> (ref \<times> nat) list \<Rightarrow> (wire \<times> wire) list
    \<Rightarrow> (val \<times> val) list \<Rightarrow> bool" where
  "decodes_entries h refs new ws kvs \<longleftrightarrow>
     (\<forall>later ds base out. enc_inv h (refs @ new @ later) \<longrightarrow> dec_match base (length refs) ds \<longrightarrow>
        out < length (dheap ds) \<longrightarrow>
        (\<exists>ds'. Decode_entries out ws ds = (Inr (), ds') \<and>
               dec_match base (length refs + length new) ds' \<and>
               dheap ds' = (dheap ds)[out := foldl put (dheap ds ! out)
                   (map (\<lambda>(k, v). (rename (refs @ new @ later) base k, rename (refs @ new @ later) base v)) kvs)]
                           @ map (cell h (refs @ new @ later) base) new))"

text \<open>
  A value the table has a copy for, and a part \<open>new\<close> of a table all of whose objects hold
  only such values.
\<close>

definition known :: "(ref \<times> nat) list \<Rightarrow> val \<Rightarrow> bool" where
  "known refs v \<longleftrightarrow> (case v of VObj r \<Rightarrow> map_of refs r \<noteq> None | _ \<Rightarrow> True)"

definition closed :: "hobj list \<Rightarrow> (ref \<times> nat) list \<Rightarrow> (ref \<times> nat) list \<Rightarrow> bool" where
  "closed h refs new \<longleftrightarrow>
     (\<forall>(r, i) \<in> set new. \<forall>x \<in> set (children (heap_at h (raw_of r))). known refs x)"

section \<open>Concrete runs\<close>

text \<open>
  A table \<^verbatim>\<open>users\<close> without indices holding one record, \<^verbatim>\<open>{name: "John", tags: new Set(["a", "b"])}\<close>:
  the record is the object at address 0, its set the object at address 1, and
  \<open>john_handle\<close> is the handle \<^verbatim>\<open>addRecord\<close> returns for it.
\<close>

definition john :: "hobj list" where
  "john = [HObject [(KStr ''name'', VStr ''John''), (KStr ''tags'', VObj (Raw 1))],
           HSet [VStr ''a'', VStr ''b'']]"

definition john_handle :: ref where
  "john_handle = Prox ''users'' (Raw 0) None (Raw 0)"

definition john_added :: database where
  "john_added = snd (addRecord ''users'' (Raw 0) True (createTable ''users'' [] (new_database john)))"

text \<open>\<^verbatim>\<open>db.beginTransaction(); record.tags.clear(); db.rollbackTransaction()\<close>.\<close>

definition clear_rolled_back :: database where
  "clear_rolled_back =
     (let s1 = beginTransaction john_added;
          (tags, s2) = js_get john_handle (KStr ''tags'') s1;
          (res, s3) = (case tags of VObj t \<Rightarrow> js_call t m_clear [] s2 | _ \<Rightarrow> (Inl TypeError, s2))
      in snd (rollbackTransaction s3))"

text \<open>\<^verbatim>\<open>db.beginTransaction(); db.removeRecord("users", record); db.rollbackTransaction()\<close>.\<close>

definition remove_rolled_back :: database where
  "remove_rolled_back =
     snd (rollbackTransaction (removeRecord ''users'' john_handle (beginTransaction john_added)))"

text \<open>The same heap with an empty table \<^verbatim>\<open>users\<close> indexed on \<^verbatim>\<open>name\<close>.\<close>

definition users_indexed :: database where
  "users_indexed = createTable ''users'' [''name''] (new_database john)"

text \<open>
  Two nested transactions, and in the inner one \<^verbatim>\<open>record.tags.add("c")\<close>:
  \<^verbatim>\<open>db.beginTransaction(); db.beginTransaction(); record.tags.add("c")\<close>.
\<close>

definition nested_add :: database where
  "nested_add =
     (let s1 = beginTransaction (beginTransaction john_added);
          (tags, s2) = js_get john_handle (KStr ''tags'') s1;
          (res, s3) = (case tags of VObj t \<Rightarrow> js_call t m_add [VStr ''c''] s2 | _ \<Rightarrow> (Inl TypeError, s2))
      in s3)"

text \<open>And then both rollbacks: \<^verbatim>\<open>db.rollbackTransaction(); db.rollbackTransaction()\<close>.\<close>

definition nested_rolled_back :: database where
  "nested_rolled_back = snd (rollbackTransaction (snd (rollbackTransaction nested_add)))"

text \<open>A decoder that has decoded nothing yet.\<close>

definition dec_init :: dec_state where
  "dec_init = \<lparr>dheap = [], dsymbols = [], dnext = 0, drefs = []\<rparr>"

text \<open>
  A heap with a second plain object, \<^verbatim>\<open>{name: "Jane"}\<close> at address 2, and the table \<^verbatim>\<open>users\<close>
  indexed on \<^verbatim>\<open>name\<close> after \<^verbatim>\<open>db.addRecord("users", john)\<close>.
\<close>

definition two_users :: "hobj list" where
  "two_users = john @ [HObject [(KStr ''name'', VStr ''Jane'')]]"

definition john_indexed :: database where
  "john_indexed =
     snd (addRecord ''users'' (Raw 0) True (createTable ''users'' [''name''] (new_database two_users)))"


text \<open>
  The same table after \<^verbatim>\<open>db.removeRecord("users", john)\<close>, called with the object and not
  with the handle, and after \<^verbatim>\<open>db.removeRecordsByColumn("users", "name", "John")\<close>, which
  removes what the lookup returned.
\<close>

definition john_removed :: database where
  "john_removed = removeRecord ''users'' (Raw 0) john_indexed"

definition johns_removed :: database where
  "johns_removed = snd (removeRecordsByColumn ''users'' ''name'' (VStr ''John'') True john_indexed)"

text \<open>
  The table \<^verbatim>\<open>users\<close> indexed on \<^verbatim>\<open>age\<close> after \<^verbatim>\<open>db.addRecord("users", {age: NaN})\<close>.
\<close>

definition nan_aged :: database where
  "nan_aged =
     snd (addRecord ''users'' (Raw 0) True
            (createTable ''users'' [''age''] (new_database [HObject [(KStr ''age'', VNaN)]])))"

text \<open>
  A graph with a cycle and a shared node, \<^verbatim>\<open>o = {self: o, tags: s, also: s}\<close> with
  \<^verbatim>\<open>s = new Set([-12n, o])\<close>, and its wire form.
\<close>

definition family :: "hobj list" where
  "family =
     [HObject [(KStr ''self'', VObj (Raw 0)), (KStr ''tags'', VObj (Raw 1)), (KStr ''also'', VObj (Raw 1))],
      HSet [VBigInt (- 12), VObj (Raw 0)]]"

text \<open>
  The object \<^verbatim>\<open>JSON.parse('{"__proto__": 1, "name": "John"}')\<close>, which has an own property
  named \<^verbatim>\<open>__proto__\<close>, and its wire form.
\<close>

definition proto_keyed :: "hobj list" where
  "proto_keyed = [HObject [(KStr ''__proto__'', VNum 1), (KStr ''name'', VStr ''John'')]]"

definition proto_keyed_wire :: wire where
  "proto_keyed_wire =
     EncodedObject
       [(EncodedValue ''string'' (PStr ''__proto__''), EncodedValue ''number'' (PNum 1)),
        (EncodedValue ''string'' (PStr ''name''), EncodedValue ''string'' (PStr ''John''))] 0"

definition family_wire :: wire where
  "family_wire =
     EncodedObject
       [(EncodedValue ''string'' (PStr ''self''), EncodedReference 0),
        (EncodedValue ''string'' (PStr ''tags''), EncodedSet [EncodedBigInt ''-12'', EncodedReference 0] 1),
        (EncodedValue ''string'' (PStr ''also''), EncodedReference 1)] 0"

section \<open>Reading through handles\<close>

lemma only_cache_refl [simp]: "only_cache s s"
  unfolding only_cache_def by simp

lemma only_cache_trans: "only_cache s s1 \<Longrightarrow> only_cache s1 s2 \<Longrightarrow> only_cache s s2"
  unfolding only_cache_def by auto

lemma only_cache_fields:
  assumes "only_cache s s'"
  shows "heap s' = heap s" "data s' = data s" "transactions s' = transactions s" "console s' = console s"
    "kind_of s' r = kind_of s r"
  using assms unfolding only_cache_def kind_of_def by auto

lemma only_cache_lookup:
  "only_cache s s' \<Longrightarrow> map_of (wrapped s) ob = Some p \<Longrightarrow> map_of (wrapped s') ob = Some p"
  unfolding only_cache_def by auto

lemma wrap_obj_only_cache: "wrap_obj tn r c ob s = (p, s') \<Longrightarrow> only_cache s s'"
  unfolding wrap_obj_def only_cache_def by (auto split: option.splits)

lemma wrap_obj_cached: "wrap_obj tn r c ob s = (p, s') \<Longrightarrow> map_of (wrapped s') ob = Some p"
  unfolding wrap_obj_def by (auto split: option.splits simp: map_add_def)

lemma wrap_only_cache: "wrap tn r c v s = (w, s') \<Longrightarrow> only_cache s s'"
  unfolding wrap_def by (auto split: val.splits prod.splits dest: wrap_obj_only_cache)

lemma wrapRecord_only_cache: "wrapRecord tn r s = (p, s') \<Longrightarrow> only_cache s s'"
  unfolding wrapRecord_def by (rule wrap_obj_only_cache)

lemma js_get_only_cache: "js_get r k s = (v, s') \<Longrightarrow> only_cache s s'"
proof (induction r k s arbitrary: v s' rule: js_get.induct)
  case (1 a k s)
  then show ?case by simp
next
  case (2 tn rcd col tgt k s)
  obtain v1 s1 where g: "js_get tgt k s = (v1, s1)" by (cases "js_get tgt k s")
  from "2.IH" [OF refl g] have "only_cache s s1" .
  with "2.prems" g show ?case
    by (auto simp: Let_def split: if_splits dest: wrap_only_cache only_cache_trans)
qed


lemma wrap_stable:
  assumes "wrap tn r c v s = (w, s1)" "only_cache s1 s2"
  shows "wrap tn2 r2 c2 v s2 = (w, s2)"
proof (cases v)
  case (VObj ob)
  with assms(1) obtain p where p: "wrap_obj tn r c ob s = (p, s1)" "w = VObj p"
    by (auto simp: wrap_def split: prod.splits)
  from wrap_obj_cached [OF p(1)] assms(2) have "map_of (wrapped s2) ob = Some p"
    by (rule only_cache_lookup [rotated])
  with VObj p(2) show ?thesis by (simp add: wrap_def wrap_obj_def)
qed (use assms(1) in \<open>auto simp: wrap_def\<close>)

lemma wrap_undefined_iff: "wrap tn r c v s = (w, s1) \<Longrightarrow> w = VUndefined \<longleftrightarrow> v = VUndefined"
  by (auto simp: wrap_def split: val.splits prod.splits)

lemma js_get_direct:
  assumes "heap_at (heap s) a = HObject ps" "direct_handle wr a" "js_get wr k s = (w, s1)"
  shows "only_cache s s1" "w = VUndefined \<longleftrightarrow> raw_get (HObject ps) k = VUndefined"
    "only_cache s1 s2 \<Longrightarrow> js_get wr k s2 = (w, s2)"
proof -
  show "only_cache s s1" using assms(3) by (rule js_get_only_cache)
  consider "wr = Raw a" | tn r c where "wr = Prox tn r c (Raw a)"
    using assms(2) unfolding direct_handle_def by blast
  then have "(w = VUndefined \<longleftrightarrow> raw_get (HObject ps) k = VUndefined) \<and>
             (only_cache s1 s2 \<longrightarrow> js_get wr k s2 = (w, s2))"
  proof cases
    case 1
    with assms(1,3) show ?thesis by (auto simp: only_cache_fields)
  next
    case 2
    let ?cc = "Some (case c of Some c' \<Rightarrow> c' | None \<Rightarrow> k)"
    from assms(1,3) 2 have w: "wrap tn r ?cc (raw_get (HObject ps) k) s = (w, s1)"
      by (simp add: kind_of_def)
    have "js_get wr k s2 = (w, s2)" if oc: "only_cache s1 s2"
    proof -
      from \<open>only_cache s s1\<close> oc have "heap_at (heap s2) a = HObject ps"
        using assms(1) by (simp add: only_cache_fields)
      with 2 wrap_stable [OF w oc, of tn r ?cc] show ?thesis by (simp add: kind_of_def)
    qed
    with wrap_undefined_iff [OF w] show ?thesis by blast
  qed
  then show "w = VUndefined \<longleftrightarrow> raw_get (HObject ps) k = VUndefined"
    "only_cache s1 s2 \<Longrightarrow> js_get wr k s2 = (w, s2)" by blast+
qed

lemma map_of_bucket_add: "\<exists>b. map_of (bucket_add v r m) v = Some b \<and> r \<in> set b"
  by (auto simp: bucket_add_def set_add_def update_conv' split: option.splits)

lemma index_record_object:
  assumes "heap_at (heap s) a = HObject ps" "direct_handle wr a"
    and "index_record wr idxs s = (idxs', s')"
  shows "only_cache s s' \<and> map fst idxs' = map fst idxs \<and>
         (\<forall>col m. map_of idxs col = Some m \<longrightarrow>
            (\<exists>m'. map_of idxs' col = Some m' \<and>
               (raw_get (HObject ps) (KStr col) \<noteq> VUndefined \<longrightarrow>
                  (\<exists>b. map_of m' (fst (js_get wr (KStr col) s')) = Some b \<and> wr \<in> set b))))"
  using assms(1,3)
proof (induction idxs arbitrary: s idxs' s')
  case Nil
  then show ?case by simp
next
  case (Cons e idxs)
  obtain c0 m0 where e: "e = (c0, m0)" by (cases e)
  obtain v s1 where g: "js_get wr (KStr c0) s = (v, s1)" by (cases "js_get wr (KStr c0) s")
  obtain rest s2 where r: "index_record wr idxs s1 = (rest, s2)" by (cases "index_record wr idxs s1")
  note rd = js_get_direct [OF Cons.prems(1) assms(2) g]
  have h1: "heap_at (heap s1) a = HObject ps" using Cons.prems(1) rd(1) by (simp add: only_cache_fields)
  from Cons.IH [OF h1 r] have IH: "only_cache s1 s2" "map fst rest = map fst idxs"
    "\<And>col m. map_of idxs col = Some m \<Longrightarrow> \<exists>m'. map_of rest col = Some m' \<and>
       (raw_get (HObject ps) (KStr col) \<noteq> VUndefined \<longrightarrow>
          (\<exists>b. map_of m' (fst (js_get wr (KStr col) s2)) = Some b \<and> wr \<in> set b))"
    by blast+
  from Cons.prems(2) e g r have res: "s' = s2"
    "idxs' = (c0, if v \<noteq> VUndefined then bucket_add v wr m0 else m0) # rest"
    by auto
  have again: "fst (js_get wr (KStr c0) s2) = v" using rd(3) [OF IH(1)] by simp
  have "only_cache s s'" using rd(1) IH(1) res(1) by (blast intro: only_cache_trans)
  moreover have "map fst idxs' = map fst (e # idxs)" using res(2) IH(2) e by simp
  moreover have "\<exists>m'. map_of idxs' col = Some m' \<and>
       (raw_get (HObject ps) (KStr col) \<noteq> VUndefined \<longrightarrow>
          (\<exists>b. map_of m' (fst (js_get wr (KStr col) s')) = Some b \<and> wr \<in> set b))"
    if look: "map_of (e # idxs) col = Some m" for col m
  proof (cases "col = c0")
    case True
    show ?thesis
    proof (cases "v = VUndefined")
      case True
      with rd(2) \<open>col = c0\<close> res(2) show ?thesis by simp
    next
      case False
      with \<open>col = c0\<close> res again map_of_bucket_add [of v wr m0] show ?thesis by auto
    qed
  next
    case False
    with look e have "map_of idxs col = Some m" by simp
    from IH(3) [OF this] False res show ?thesis by simp
  qed
  ultimately show ?case by blast
qed

lemma wrapRecord_direct:
  assumes "wrapRecord tn (Raw a) s = (wr, s1)"
    and "\<forall>p. map_of (wrapped s) (Raw a) = Some p \<longrightarrow> direct_handle p a"
  shows "direct_handle wr a" "map_of (wrapped s1) (Raw a) = Some wr" "only_cache s s1" "wr \<noteq> Raw a \<or> True"
  using assms wrap_obj_cached [of tn "Raw a" None "Raw a" s wr s1]
    wrap_obj_only_cache [of tn "Raw a" None "Raw a" s wr s1]
  by (auto simp: wrapRecord_def wrap_obj_def direct_handle_def split: option.splits)

lemma upd_table_data:
  "map_of (data s) tn = Some t \<Longrightarrow> upd_table tn f s = s\<lparr>data := AList.update tn (f t) (data s)\<rparr>"
  by (simp add: upd_table_def)

lemma insert_record_raw:
  assumes t: "map_of (data s) tn = Some t"
    and ob: "heap_at (heap s) a = HObject ps"
    and idv: "raw_get (heap_at (heap s) a) UniqueID = idv"
    and cache: "\<forall>p. map_of (wrapped s) (Raw a) = Some p \<longrightarrow> direct_handle p a"
    and ins: "insert_record tn (Raw a) wrapd s = (wr, s')"
  shows "\<exists>idx. heap s' = heap s \<and> console s' = console s \<and>
           data s' = AList.update tn (t\<lparr>records := AList.update idv (Raw a) (records t),
                                       indices := idx\<rparr>) (data s) \<and>
           direct_handle wr a \<and>
           (if wrapd then map_of (wrapped s') (Raw a) = Some wr else wr = Raw a) \<and>
           map fst idx = map fst (indices t) \<and>
           (\<forall>col m. map_of (indices t) col = Some m \<longrightarrow>
              (\<exists>m'. map_of idx col = Some m' \<and>
                 (raw_get (HObject ps) (KStr col) \<noteq> VUndefined \<longrightarrow>
                    (\<exists>b. map_of m' (fst (js_get wr (KStr col) s')) = Some b \<and> wr \<in> set b))))"
proof -
  let ?t1 = "t\<lparr>records := AList.update idv (Raw a) (records t)\<rparr>"
  let ?s2 = "s\<lparr>data := AList.update tn ?t1 (data s)\<rparr>"
  have g: "js_get (Raw a) UniqueID s = (idv, s)" using idv by simp
  have s2: "upd_table tn (\<lambda>t. t\<lparr>records := AList.update idv (Raw a) (records t)\<rparr>) s = ?s2"
    using t by (simp add: upd_table_data)
  obtain wr0 s3 where w: "(if wrapd then wrapRecord tn (Raw a) ?s2 else (Raw a, ?s2)) = (wr0, s3)"
    by (cases "if wrapd then wrapRecord tn (Raw a) ?s2 else (Raw a, ?s2)")
  have w3: "direct_handle wr0 a" "only_cache ?s2 s3"
    "if wrapd then map_of (wrapped s3) (Raw a) = Some wr0 else wr0 = Raw a"
    using w cache wrapRecord_direct [of tn a ?s2 wr0 s3]
    by (auto simp: direct_handle_def split: if_splits)
  have t3: "map_of (data s3) tn = Some ?t1" using w3(2) by (simp add: only_cache_fields update_conv')
  obtain idx s4 where ix: "index_record wr0 (indices t) s3 = (idx, s4)"
    by (cases "index_record wr0 (indices t) s3")
  have h3: "heap_at (heap s3) a = HObject ps" using ob w3(2) by (simp add: only_cache_fields)
  note I = index_record_object [OF h3 w3(1) ix]
  from I have oc34: "only_cache s3 s4" by blast
  have t4: "map_of (data s4) tn = Some ?t1" using t3 oc34 by (simp add: only_cache_fields)
  let ?s5 = "s4\<lparr>data := AList.update tn (?t1\<lparr>indices := idx\<rparr>) (data s4)\<rparr>"
  let ?ev = "Event ev_added tn wr0 None None None VUndefined VUndefined VUndefined VUndefined []"
  have ix': "index_record wr0 (case map_of (data s3) tn of None \<Rightarrow> [] | Some t \<Rightarrow> indices t) s3 = (idx, s4)"
    using ix t3 by simp
  have s5: "upd_table tn (\<lambda>t. t\<lparr>indices := idx\<rparr>) s4 = ?s5"
    using t4 by (simp add: upd_table_data)
  have "insert_record tn (Raw a) wrapd s = (wr0, onUpdateRecord ?ev ?s5)"
    unfolding insert_record_def g Let_def prod.case s2 w ix' s5 ..
  with ins have res: "wr = wr0" "s' = onUpdateRecord ?ev ?s5" by auto
  have hs: "heap s' = heap s4" "wrapped s' = wrapped s4" "console s' = console s4" "data s' = data ?s5"
    using res(2) by (simp_all add: onUpdateRecord_def push_change_def Let_def)
  have same: "fst (js_get wr0 k s') = fst (js_get wr0 k s4)" for k
    using w3(1) hs(1,2) unfolding direct_handle_def
    by (auto simp: kind_of_def wrap_def wrap_obj_def Let_def split: val.splits option.splits prod.splits)
  have d4: "data s4 = AList.update tn ?t1 (data s)" "heap s4 = heap s" "console s4 = console s"
    using oc34 w3(2) by (simp_all add: only_cache_fields)
  have "heap s' = heap s" "console s' = console s"
    "data s' = AList.update tn (?t1\<lparr>indices := idx\<rparr>) (data s)"
    using hs d4 by simp_all
  moreover have "if wrapd then map_of (wrapped s') (Raw a) = Some wr else wr = Raw a"
    using w3(3) oc34 res(1) hs(2) only_cache_lookup [of s3 s4 "Raw a" wr0] by auto
  ultimately show ?thesis using I w3(1) res(1) same by (intro exI [of _ idx]) auto
qed


section \<open>Lookups and removals on an unknown table\<close>

text \<open>
  Six of the seven operations test \<^verbatim>\<open>this._data[tableName]\<close> first: on an unknown table
  whose name \<^verbatim>\<open>Object.prototype\<close> does not define they print the error, change nothing else
  and return.
\<close>

lemma unknown_table_reported:
  assumes "map_of (data s) tableName = None" "own_name tableName"
  shows "getRecord tableName uid w s = (None, logError (no_table tableName) s)"
    and "getRecordsByColumn tableName c v w s = ([], logError (no_table tableName) s)"
    and "removeRecord tableName r s = logError (no_table tableName) s"
    and "deleteTable tableName s = logError (no_table tableName) s"
    and "addIndex tableName c s = logError (no_table tableName) s"
    and "removeIndex tableName c s = logError (no_table tableName) s"
  using assms
  by (simp_all add: getRecord_def getRecordsByColumn_def removeRecord_def deleteTable_def
      addIndex_def removeIndex_def)

text \<open>
  Claim C7 (the code departs from it): every lookup or removal on an unknown table returns
  normally. \<^verbatim>\<open>getAllRecords\<close> has no such test: on a database without the table it reads
  \<^verbatim>\<open>records\<close> of \<^verbatim>\<open>undefined\<close>, which throws a \<^verbatim>\<open>TypeError\<close>.
\<close>

theorem getAllRecords_unknown_table_throws:
  "getAllRecords ''missing'' (new_database []) = (Inl TypeError, new_database [])"
  by (simp add: getAllRecords_def new_database_def)

section \<open>Rollback\<close>

text \<open>
  Claim C1 (the code departs from it): a rollback restores what the transaction changed, a
  cleared container included. In the run \<open>clear_rolled_back\<close> the set of the record holds
  \<^verbatim>\<open>"a"\<close> and \<^verbatim>\<open>"b"\<close> when the transaction begins, is cleared through the handle, and is
  still empty after the rollback, which has closed the only frame: the \<^verbatim>\<open>method.clear\<close>
  case of the loop does nothing.
\<close>

theorem rollback_leaves_cleared_set_empty:
  "fst (addRecord ''users'' (Raw 0) True (createTable ''users'' [] (new_database john))) = Inr john_handle
   \<and> heap_at (heap (beginTransaction john_added)) 1 = HSet [VStr ''a'', VStr ''b'']
   \<and> heap_at (heap clear_rolled_back) 1 = HSet []
   \<and> transactions clear_rolled_back = []"
  by code_simp

text \<open>
  Claim C4 (the code departs from it): rolling back a removal re-adds the record under its
  original identifier. In the run \<open>remove_rolled_back\<close> the record has identifier 1 before
  the transaction; the rollback calls \<^verbatim>\<open>addRecord\<close>, which reserves the next identifier, so
  afterwards the record map has the single key 2 and the record carries 2.
\<close>

theorem rollback_of_removal_assigns_new_identifier:
  "map (records \<circ> snd) (data john_added) = [[(VBigInt 1, Raw 0)]]
   \<and> raw_get (heap_at (heap john_added) 0) UniqueID = VBigInt 1
   \<and> map (records \<circ> snd) (data remove_rolled_back) = [[(VBigInt 2, john_handle)]]
   \<and> raw_get (heap_at (heap remove_rolled_back) 0) UniqueID = VBigInt 2
   \<and> map (lastUID \<circ> snd) (data remove_rolled_back) = [Some 2]"
  by code_simp

section \<open>Decoding a reference\<close>

text \<open>
  Claim C6, as the code has it: a reference node whose id is not in the map decodes to
  \<^verbatim>\<open>undefined\<close> and leaves the decoder as it was; \<^verbatim>\<open>Decode\<close> has no error for it.
\<close>

theorem Decode_missing_reference_is_undefined:
  "map_of (drefs st) i = None \<Longrightarrow> Decode (EncodedReference i) st = (Inr VUndefined, st)"
  by simp

theorem Decode_missing_reference_is_undefined_witness:
  "map_of (drefs dec_init) 7 = None \<and> Decode (EncodedReference 7) dec_init = (Inr VUndefined, dec_init)"
proof -
  have none: "map_of (drefs dec_init) 7 = None"
    by (simp add: dec_init_def)
  from none Decode_missing_reference_is_undefined [OF none] show ?thesis by simp
qed

text \<open>
  Claim C6 as stated fails: the wire form \<^verbatim>\<open>{type: "array", ref: 0, val: [{type: "ref", val: 5}]}\<close>
  holds a reference to an id that is never defined, and decoding it returns an array (whose
  element is \<^verbatim>\<open>undefined\<close>), not an error.
\<close>

theorem Decode_missing_reference_counterexample:
  "Decode (EncodedArray [EncodedReference 5] 0) dec_init =
     (Inr (VObj (Raw 0)),
      \<lparr>dheap = [HArray [VUndefined]], dsymbols = [], dnext = 0, drefs = [(0, VObj (Raw 0))]\<rparr>)"
  by (simp add: dec_init_def alloc_def store_item_def heap_at_def)

section \<open>Adding a record\<close>

lemma cache_ok_direct:
  "cache_ok s \<Longrightarrow> map_of (wrapped s) (Raw a) = Some p \<Longrightarrow> \<exists>tn r c. p = Prox tn r c (Raw a)"
  unfolding cache_ok_def by (auto dest!: map_of_SomeD)

lemma getNextUID_eq: "getNextUID t = (case lastUID t of None \<Rightarrow> 1 | Some u \<Rightarrow> u + 1)"
  by (simp add: getNextUID_def split: option.splits)

lemma raw_get_update_other:
  "k \<noteq> k' \<Longrightarrow> raw_get (HObject (AList.update k' v ps)) k = raw_get (HObject ps) k"
  by (simp add: update_conv')

lemma raw_get_update_same: "raw_get (HObject (AList.update k v ps)) k = v"
  by (simp add: update_conv')

text \<open>What \<^verbatim>\<open>addRecord\<close> and \<^verbatim>\<open>setRecord\<close> do to a plain record once the counter is set.\<close>

lemma stamp_and_insert_raw:
  assumes t: "map_of (data s) tn = Some t"
    and a: "a < length (heap s)" "heap s ! a = HObject ps"
    and cache: "cache_ok s"
    and run: "insert_record tn (Raw a) wrapd (js_set (Raw a) UniqueID (VBigInt uid) s) = (wr, s')"
  shows "\<exists>idx. heap s' = (heap s)[a := HObject (AList.update UniqueID (VBigInt uid) ps)] \<and>
           console s' = console s \<and>
           data s' = AList.update tn (t\<lparr>records := AList.update (VBigInt uid) (Raw a) (records t),
                                       indices := idx\<rparr>) (data s) \<and>
           (if wrapd then map_of (wrapped s') (Raw a) = Some wr \<and> (\<exists>tn r c. wr = Prox tn r c (Raw a))
            else wr = Raw a) \<and>
           map fst idx = map fst (indices t) \<and>
           (\<forall>col m. map_of (indices t) col = Some m \<longrightarrow>
              (\<exists>m'. map_of idx col = Some m' \<and>
                 (raw_get (HObject ps) (KStr col) \<noteq> VUndefined \<longrightarrow>
                    (\<exists>b. map_of m' (fst (js_get wr (KStr col) s')) = Some b \<and> wr \<in> set b))))"
proof -
  let ?ps = "AList.update UniqueID (VBigInt uid) ps"
  let ?s1 = "js_set (Raw a) UniqueID (VBigInt uid) s"
  have s1: "?s1 = s\<lparr>heap := (heap s)[a := HObject ?ps]\<rparr>"
    using a by (simp add: heap_at_def)
  have ob: "heap_at (heap ?s1) a = HObject ?ps" using a by (simp add: s1 heap_at_def)
  have idv: "raw_get (heap_at (heap ?s1) a) UniqueID = VBigInt uid"
    unfolding ob by (rule raw_get_update_same)
  have t1: "map_of (data ?s1) tn = Some t" using t by (simp add: s1)
  have c1: "\<forall>p. map_of (wrapped ?s1) (Raw a) = Some p \<longrightarrow> direct_handle p a"
    using cache_ok_direct [OF cache] by (auto simp: s1 direct_handle_def)
  from insert_record_raw [OF t1 ob idv c1 run] obtain idx where I:
    "heap s' = heap ?s1" "console s' = console ?s1"
    "data s' = AList.update tn (t\<lparr>records := AList.update (VBigInt uid) (Raw a) (records t),
                                 indices := idx\<rparr>) (data ?s1)"
    "if wrapd then map_of (wrapped s') (Raw a) = Some wr else wr = Raw a"
    "map fst idx = map fst (indices t)"
    "\<And>col m. map_of (indices t) col = Some m \<Longrightarrow>
        \<exists>m'. map_of idx col = Some m' \<and>
          (raw_get (HObject ?ps) (KStr col) \<noteq> VUndefined \<longrightarrow>
             (\<exists>b. map_of m' (fst (js_get wr (KStr col) s')) = Some b \<and> wr \<in> set b))"
    by blast
  have keep: "raw_get (HObject ?ps) (KStr col) = raw_get (HObject ps) (KStr col)" for col
    by (rule raw_get_update_other) (simp add: UniqueID_def)
  have prox: "\<exists>tn r c. wr = Prox tn r c (Raw a)" if wrapd
  proof (cases "map_of (wrapped ?s1) (Raw a)")
    case None
    with run that show ?thesis
      using a t by (auto simp: insert_record_def Let_def upd_table_def wrapRecord_def wrap_obj_def
          split: prod.splits)
  next
    case (Some p)
    then have "map_of (wrapped s) (Raw a) = Some p" by (simp add: s1)
    from cache_ok_direct [OF cache this] obtain tn' r c where p: "p = Prox tn' r c (Raw a)" by blast
    from Some run that have "wr = p"
      using a t by (auto simp: insert_record_def Let_def upd_table_def wrapRecord_def wrap_obj_def
          split: prod.splits)
    with p show ?thesis by blast
  qed
  show ?thesis
    using I(1-5) prox I(6) a unfolding keep
    by (intro exI [of _ idx]) (auto simp: heap_at_def)
qed


text \<open>
  What \<^verbatim>\<open>addRecord\<close> does on a table name that \<^verbatim>\<open>Object.prototype\<close> does not define. It
  throws the error naming the table when the table does not exist. When it exists and the
  record is a plain object of the heap, the call returns the handle of the record (the
  proxy the cache holds for it); the table's counter and the record's identifier are
  \<^verbatim>\<open>lastUID + 1\<close>, or 1 when no identifier was assigned yet; the record map holds the record
  under that identifier; and for every index the table had whose column the record has
  with a value other than \<^verbatim>\<open>undefined\<close>, the handle is in the bucket of the value the handle
  reads at that column. (Under a name such as \<^verbatim>\<open>constructor\<close> the test
  \<^verbatim>\<open>if (!this._data[tableName])\<close> finds the inherited member and the error is not thrown.)
\<close>

lemma addRecord_contract:
  "(map_of (data s) tableName = None \<and> own_name tableName \<longrightarrow>
      addRecord tableName r wrapd s = (Inl (Error (no_table tableName)), s)) \<and>
   (\<forall>t a ps. map_of (data s) tableName = Some t \<and> a < length (heap s) \<and> heap s ! a = HObject ps \<and>
        cache_ok s \<longrightarrow>
      (\<exists>p s' t'. addRecord tableName (Raw a) True s = (Inr p, s') \<and>
         map_of (data s') tableName = Some t' \<and>
         lastUID t' = Some (case lastUID t of None \<Rightarrow> 1 | Some u \<Rightarrow> u + 1) \<and>
         map_of (records t') (VBigInt (case lastUID t of None \<Rightarrow> 1 | Some u \<Rightarrow> u + 1)) = Some (Raw a) \<and>
         raw_get (heap_at (heap s') a) UniqueID = VBigInt (case lastUID t of None \<Rightarrow> 1 | Some u \<Rightarrow> u + 1) \<and>
         map_of (wrapped s') (Raw a) = Some p \<and> (\<exists>tn rc c. p = Prox tn rc c (Raw a)) \<and>
         (\<forall>col m. map_of (indices t) col = Some m \<and> raw_get (HObject ps) (KStr col) \<noteq> VUndefined \<longrightarrow>
            (\<exists>m' b. map_of (indices t') col = Some m' \<and>
               map_of m' (fst (js_get p (KStr col) s')) = Some b \<and> p \<in> set b))))"
proof (intro conjI impI allI)
  assume "map_of (data s) tableName = None \<and> own_name tableName"
  then show "addRecord tableName r wrapd s = (Inl (Error (no_table tableName)), s)"
    by (simp add: addRecord_def)
next
  fix t a ps
  assume h: "map_of (data s) tableName = Some t \<and> a < length (heap s) \<and> heap s ! a = HObject ps \<and> cache_ok s"
  let ?uid = "case lastUID t of None \<Rightarrow> 1 | Some u \<Rightarrow> u + 1"
  let ?t1 = "t\<lparr>lastUID := Some ?uid\<rparr>"
  let ?s1 = "s\<lparr>data := AList.update tableName ?t1 (data s)\<rparr>"
  have r: "reserveNextUID tableName s = (?uid, ?s1)"
    using h by (simp add: reserveNextUID_def upd_table_data getNextUID_eq)
  obtain p s' where run: "insert_record tableName (Raw a) True (js_set (Raw a) UniqueID (VBigInt ?uid) ?s1) = (p, s')"
    by (cases "insert_record tableName (Raw a) True (js_set (Raw a) UniqueID (VBigInt ?uid) ?s1)")
  have add: "addRecord tableName (Raw a) True s = (Inr p, s')"
    using h r run by (simp add: addRecord_def)
  have t1: "map_of (data ?s1) tableName = Some ?t1" by (simp add: update_conv')
  have c1: "cache_ok ?s1" using h by (simp add: cache_ok_def)
  from stamp_and_insert_raw [OF t1 _ _ c1 run, of ps] h obtain idx where I:
    "heap s' = (heap s)[a := HObject (AList.update UniqueID (VBigInt ?uid) ps)]"
    "data s' = AList.update tableName (?t1\<lparr>records := AList.update (VBigInt ?uid) (Raw a) (records ?t1),
                                 indices := idx\<rparr>) (data ?s1)"
    "map_of (wrapped s') (Raw a) = Some p" "\<exists>tn r c. p = Prox tn r c (Raw a)"
    "\<And>col m. map_of (indices t) col = Some m \<Longrightarrow>
        \<exists>m'. map_of idx col = Some m' \<and>
          (raw_get (HObject ps) (KStr col) \<noteq> VUndefined \<longrightarrow>
             (\<exists>b. map_of m' (fst (js_get p (KStr col) s')) = Some b \<and> p \<in> set b))"
    by auto
  let ?t' = "?t1\<lparr>records := AList.update (VBigInt ?uid) (Raw a) (records ?t1), indices := idx\<rparr>"
  have d: "map_of (data s') tableName = Some ?t'" unfolding I(2) by (simp add: update_conv')
  have hp: "raw_get (heap_at (heap s') a) UniqueID = VBigInt ?uid"
    using h unfolding I(1) by (simp add: heap_at_def update_conv')
  show "\<exists>p s' t'. addRecord tableName (Raw a) True s = (Inr p, s') \<and>
         map_of (data s') tableName = Some t' \<and>
         lastUID t' = Some ?uid \<and>
         map_of (records t') (VBigInt ?uid) = Some (Raw a) \<and>
         raw_get (heap_at (heap s') a) UniqueID = VBigInt ?uid \<and>
         map_of (wrapped s') (Raw a) = Some p \<and> (\<exists>tn rc c. p = Prox tn rc c (Raw a)) \<and>
         (\<forall>col m. map_of (indices t) col = Some m \<and> raw_get (HObject ps) (KStr col) \<noteq> VUndefined \<longrightarrow>
            (\<exists>m' b. map_of (indices t') col = Some m' \<and>
               map_of m' (fst (js_get p (KStr col) s')) = Some b \<and> p \<in> set b))"
  proof (intro exI [of _ p] exI [of _ s'] exI [of _ ?t'] conjI allI impI)
    fix col m
    assume "map_of (indices t) col = Some m \<and> raw_get (HObject ps) (KStr col) \<noteq> VUndefined"
    with I(5) [of col m] show "\<exists>m' b. map_of (indices ?t') col = Some m' \<and>
               map_of m' (fst (js_get p (KStr col) s')) = Some b \<and> p \<in> set b"
      by auto
  qed (use add d hp I(3,4) in \<open>simp_all add: update_conv'\<close>)
qed


lemma addRecord_contract_on_users:
  "(map_of (data (new_database john)) ''users'' = None \<and> own_name ''users'' \<and>
    addRecord ''users'' (Raw 0) True (new_database john) = (Inl (Error (no_table ''users'')), new_database john)) \<and>
   (map_of (data users_indexed) ''users'' = Some \<lparr>records = [], indices = [(''name'', [])], lastUID = None\<rparr> \<and>
    0 < length (heap users_indexed) \<and>
    heap users_indexed ! 0 = HObject [(KStr ''name'', VStr ''John''), (KStr ''tags'', VObj (Raw 1))] \<and>
    cache_ok users_indexed \<and>
    (\<exists>s' t'. addRecord ''users'' (Raw 0) True users_indexed = (Inr john_handle, s') \<and>
       map_of (data s') ''users'' = Some t' \<and> lastUID t' = Some 1 \<and>
       map_of (records t') (VBigInt 1) = Some (Raw 0) \<and>
       raw_get (heap_at (heap s') 0) UniqueID = VBigInt 1 \<and>
       map_of (indices t') ''name'' = Some [(VStr ''John'', [john_handle])]))"
proof -
  have n: "map_of (data (new_database john)) ''users'' = None" by code_simp
  have t: "map_of (data users_indexed) ''users'' = Some \<lparr>records = [], indices = [(''name'', [])], lastUID = None\<rparr>"
    by code_simp
  have a: "0 < length (heap users_indexed)"
    "heap users_indexed ! 0 = HObject [(KStr ''name'', VStr ''John''), (KStr ''tags'', VObj (Raw 1))]"
    by code_simp+
  have "wrapped users_indexed = []" by code_simp
  then have c: "cache_ok users_indexed" by (simp add: cache_ok_def)
  have o: "own_name ''users''" by code_simp
  from addRecord_contract [of "new_database john" "''users''" "Raw 0" True] n o
  have 1: "addRecord ''users'' (Raw 0) True (new_database john) = (Inl (Error (no_table ''users'')), new_database john)"
    by blast
  let ?t0 = "\<lparr>records = [], indices = [(''name'', [])], lastUID = None\<rparr> :: table"
  note R = addRecord_contract [of users_indexed "''users''" "Raw 0" True, THEN conjunct2, rule_format,
      of ?t0 0 "[(KStr ''name'', VStr ''John''), (KStr ''tags'', VObj (Raw 1))]"]
  from R [OF conjI [OF t conjI [OF a(1) conjI [OF a(2) c]]]]
  obtain p s' t' where r: "addRecord ''users'' (Raw 0) True users_indexed = (Inr p, s')"
    "map_of (data s') ''users'' = Some t'" "lastUID t' = Some 1"
    "map_of (records t') (VBigInt 1) = Some (Raw 0)"
    "raw_get (heap_at (heap s') 0) UniqueID = VBigInt 1"
    by auto
  have e: "fst (addRecord ''users'' (Raw 0) True users_indexed) = Inr john_handle"
    "map (indices \<circ> snd) (data (snd (addRecord ''users'' (Raw 0) True users_indexed))) = [[(''name'', [(VStr ''John'', [john_handle])])]]"
    by code_simp+
  from e r(1,2) have "p = john_handle" "map_of (indices t') ''name'' = Some [(VStr ''John'', [john_handle])]"
    by (auto dest!: map_of_SomeD)
  with r n t a c 1 o show ?thesis by blast
qed


text \<open>
  Claim C10: \<^verbatim>\<open>addRecord\<close> and \<^verbatim>\<open>setRecord\<close> keep the caller's object, not a copy. For a
  plain object at address \<open>a\<close>, the heap afterwards is the heap before with the identifier
  written on that one object (no object is added), the record map holds the reference
  \<open>Raw a\<close> under the identifier, and an unwrapped \<^verbatim>\<open>getRecord\<close> returns that reference.
\<close>

theorem record_stored_by_reference:
  "\<forall>t a ps. map_of (data s) tableName = Some t \<and> a < length (heap s) \<and> heap s ! a = HObject ps \<and>
      cache_ok s \<longrightarrow>
     (\<exists>h s' t'. addRecord tableName (Raw a) wrapd s = (Inr h, s') \<and>
        map_of (data s') tableName = Some t' \<and>
        map_of (records t') (VBigInt (getNextUID t)) = Some (Raw a) \<and>
        heap s' = (heap s)[a := HObject (AList.update UniqueID (VBigInt (getNextUID t)) ps)] \<and>
        getRecord tableName (getNextUID t) False s' = (Some (Raw a), s')) \<and>
     (\<exists>h s' t'. setRecord tableName (Raw a) uid wrapd s = (Inr h, s') \<and>
        map_of (data s') tableName = Some t' \<and>
        map_of (records t') (VBigInt uid) = Some (Raw a) \<and>
        heap s' = (heap s)[a := HObject (AList.update UniqueID (VBigInt uid) ps)] \<and>
        getRecord tableName uid False s' = (Some (Raw a), s'))"
proof (intro allI impI)
  fix t a ps
  assume h: "map_of (data s) tableName = Some t \<and> a < length (heap s) \<and> heap s ! a = HObject ps \<and> cache_ok s"
  have stored: "\<exists>h s' t'. insert_record tableName (Raw a) wrapd (js_set (Raw a) UniqueID (VBigInt u) s1) = (h, s') \<and>
        map_of (data s') tableName = Some t' \<and>
        map_of (records t') (VBigInt u) = Some (Raw a) \<and>
        heap s' = (heap s)[a := HObject (AList.update UniqueID (VBigInt u) ps)] \<and>
        getRecord tableName u False s' = (Some (Raw a), s')"
    if s1: "s1 = s\<lparr>data := AList.update tableName t1 (data s)\<rparr>" for s1 t1 u
  proof -
    obtain p s' where run: "insert_record tableName (Raw a) wrapd (js_set (Raw a) UniqueID (VBigInt u) s1) = (p, s')"
      by (cases "insert_record tableName (Raw a) wrapd (js_set (Raw a) UniqueID (VBigInt u) s1)")
    have t1: "map_of (data s1) tableName = Some t1" by (simp add: s1 update_conv')
    have c1: "cache_ok s1" using h by (simp add: cache_ok_def s1)
    from stamp_and_insert_raw [OF t1 _ _ c1 run, of ps] h obtain idx where I:
      "heap s' = (heap s)[a := HObject (AList.update UniqueID (VBigInt u) ps)]"
      "data s' = AList.update tableName (t1\<lparr>records := AList.update (VBigInt u) (Raw a) (records t1),
                                   indices := idx\<rparr>) (data s1)"
      by (auto simp: s1)
    let ?t' = "t1\<lparr>records := AList.update (VBigInt u) (Raw a) (records t1), indices := idx\<rparr>"
    have d: "map_of (data s') tableName = Some ?t'" unfolding I(2) by (simp add: update_conv')
    then have "getRecord tableName u False s' = (Some (Raw a), s')"
      by (simp add: getRecord_def update_conv')
    with run d I(1) show ?thesis by (auto simp: update_conv')
  qed
  have r: "reserveNextUID tableName s =
      (getNextUID t, s\<lparr>data := AList.update tableName (t\<lparr>lastUID := Some (getNextUID t)\<rparr>) (data s)\<rparr>)"
    using h by (simp add: reserveNextUID_def upd_table_data)
  from stored [of _ "t\<lparr>lastUID := Some (getNextUID t)\<rparr>" "getNextUID t", OF refl]
  have A: "\<exists>h s' t'. addRecord tableName (Raw a) wrapd s = (Inr h, s') \<and>
        map_of (data s') tableName = Some t' \<and>
        map_of (records t') (VBigInt (getNextUID t)) = Some (Raw a) \<and>
        heap s' = (heap s)[a := HObject (AList.update UniqueID (VBigInt (getNextUID t)) ps)] \<and>
        getRecord tableName (getNextUID t) False s' = (Some (Raw a), s')"
    using h r by (auto simp: addRecord_def)
  let ?f = "\<lambda>t. if lastUID t = None \<or> lastUID t = Some 0 \<or> the (lastUID t) < uid then t\<lparr>lastUID := Some uid\<rparr> else t"
  have u: "upd_table tableName ?f s = s\<lparr>data := AList.update tableName (?f t) (data s)\<rparr>"
    using h by (simp add: upd_table_data)
  from stored [of _ "?f t" uid, OF refl]
  have B: "\<exists>h s' t'. setRecord tableName (Raw a) uid wrapd s = (Inr h, s') \<and>
        map_of (data s') tableName = Some t' \<and>
        map_of (records t') (VBigInt uid) = Some (Raw a) \<and>
        heap s' = (heap s)[a := HObject (AList.update UniqueID (VBigInt uid) ps)] \<and>
        getRecord tableName uid False s' = (Some (Raw a), s')"
    using h unfolding setRecord_def u by (auto simp: Let_def)
  from A B show "(\<exists>h s' t'. addRecord tableName (Raw a) wrapd s = (Inr h, s') \<and>
        map_of (data s') tableName = Some t' \<and>
        map_of (records t') (VBigInt (getNextUID t)) = Some (Raw a) \<and>
        heap s' = (heap s)[a := HObject (AList.update UniqueID (VBigInt (getNextUID t)) ps)] \<and>
        getRecord tableName (getNextUID t) False s' = (Some (Raw a), s')) \<and>
     (\<exists>h s' t'. setRecord tableName (Raw a) uid wrapd s = (Inr h, s') \<and>
        map_of (data s') tableName = Some t' \<and>
        map_of (records t') (VBigInt uid) = Some (Raw a) \<and>
        heap s' = (heap s)[a := HObject (AList.update UniqueID (VBigInt uid) ps)] \<and>
        getRecord tableName uid False s' = (Some (Raw a), s'))" by blast
qed


theorem record_stored_by_reference_witness:
  "(map_of (data users_indexed) ''users'' = Some \<lparr>records = [], indices = [(''name'', [])], lastUID = None\<rparr> \<and>
    0 < length (heap users_indexed) \<and>
    heap users_indexed ! 0 = HObject [(KStr ''name'', VStr ''John''), (KStr ''tags'', VObj (Raw 1))] \<and>
    cache_ok users_indexed) \<and>
   (\<exists>h s' t'. addRecord ''users'' (Raw 0) True users_indexed = (Inr h, s') \<and>
      map_of (data s') ''users'' = Some t' \<and>
      map_of (records t') (VBigInt 1) = Some (Raw 0) \<and>
      heap s' = [HObject [(KStr ''name'', VStr ''John''), (KStr ''tags'', VObj (Raw 1)), (UniqueID, VBigInt 1)],
                 HSet [VStr ''a'', VStr ''b'']] \<and>
      getRecord ''users'' 1 False s' = (Some (Raw 0), s')) \<and>
   (\<exists>h s' t'. setRecord ''users'' (Raw 0) 7 True users_indexed = (Inr h, s') \<and>
      map_of (data s') ''users'' = Some t' \<and>
      map_of (records t') (VBigInt 7) = Some (Raw 0) \<and>
      heap s' = [HObject [(KStr ''name'', VStr ''John''), (KStr ''tags'', VObj (Raw 1)), (UniqueID, VBigInt 7)],
                 HSet [VStr ''a'', VStr ''b'']] \<and>
      getRecord ''users'' 7 False s' = (Some (Raw 0), s'))"
proof -
  let ?t0 = "\<lparr>records = [], indices = [(''name'', [])], lastUID = None\<rparr> :: table"
  let ?ps = "[(KStr ''name'', VStr ''John''), (KStr ''tags'', VObj (Raw 1))]"
  have t: "map_of (data users_indexed) ''users'' = Some ?t0"
    by code_simp
  have a: "0 < length (heap users_indexed)" "heap users_indexed ! 0 = HObject ?ps"
    by code_simp+
  have hp: "heap users_indexed = [HObject ?ps, HSet [VStr ''a'', VStr ''b'']]" by code_simp
  have "wrapped users_indexed = []" by code_simp
  then have c: "cache_ok users_indexed" by (simp add: cache_ok_def)
  have n: "getNextUID ?t0 = 1" by (simp add: getNextUID_def)
  note R = record_stored_by_reference [of users_indexed "''users''" True 7, rule_format, of ?t0 0 ?ps,
      OF conjI [OF t conjI [OF a(1) conjI [OF a(2) c]]]]
  from R show ?thesis unfolding n hp using t a c hp by (simp add: UniqueID_def)
qed

section \<open>Transaction frames\<close>

text \<open>
  Every operation of the store and of the observer leaves the stack of frames as it was,
  but for events added at the end of the innermost frame.
\<close>

lemma frames_kept_refl [simp]: "frames_kept ts ts"
  unfolding frames_kept_def by (rule exI [of _ "[]"]) simp

lemma frames_kept_trans: "frames_kept ts ts1 \<Longrightarrow> frames_kept ts1 ts2 \<Longrightarrow> frames_kept ts ts2"
  unfolding frames_kept_def by (cases "ts = []") auto

lemma logs_refl [simp]: "logs s s"
  by (simp add: logs_def)

lemma logs_trans [trans]: "logs s s1 \<Longrightarrow> logs s1 s2 \<Longrightarrow> logs s s2"
  unfolding logs_def by (rule frames_kept_trans)

lemma logs_same: "transactions s' = transactions s \<Longrightarrow> logs s s'"
  by (simp add: logs_def)

lemma logs_only_cache: "only_cache s s' \<Longrightarrow> logs s s'"
  by (simp add: logs_def only_cache_fields)

lemma logs_push_change: "logs s (push_change ev s)"
  unfolding logs_def frames_kept_def push_change_def by (auto intro: exI [of _ "[ev]"] exI [of _ "[]"])

lemma transactions_reindex [simp]: "transactions (reindex ev new s) = transactions s"
  by (simp add: reindex_def split: option.splits pkey.splits)

lemma logs_onUpdateRecord: "logs s (onUpdateRecord ev s)"
  using logs_push_change [of s ev] by (simp add: onUpdateRecord_def Let_def logs_def)

lemma logs_wrap: "wrap tn r c v s = (w, s') \<Longrightarrow> logs s s'"
  by (blast intro: logs_only_cache wrap_only_cache)

lemma logs_wrap_obj: "wrap_obj tn r c ob s = (p, s') \<Longrightarrow> logs s s'"
  by (blast intro: logs_only_cache wrap_obj_only_cache)

lemma logs_wrapRecord: "wrapRecord tn r s = (p, s') \<Longrightarrow> logs s s'"
  by (blast intro: logs_only_cache wrapRecord_only_cache)

lemma logs_js_get: "js_get r k s = (v, s') \<Longrightarrow> logs s s'"
  by (blast intro: logs_only_cache js_get_only_cache)

lemma logs_js_set: "logs s (js_set r k v s)"
proof (induction r k v s rule: js_set.induct)
  case (1 a k v s)
  show ?case by (simp add: logs_def)
next
  case (2 tn rcd col tgt k v s)
  let ?cur = "case col of Some c \<Rightarrow> c | None \<Rightarrow> k"
  obtain old s1 where g: "js_get tgt k s = (old, s1)" by (cases "js_get tgt k s")
  obtain wv s2 where w: "wrap tn rcd (Some ?cur) v s1 = (wv, s2)" by (cases "wrap tn rcd (Some ?cur) v s1")
  define s3 where "s3 = js_set tgt k wv s2"
  obtain r s4 where wr: "wrapRecord tn rcd s3 = (r, s4)" by (cases "wrapRecord tn rcd s3")
  obtain ob s5 where wo: "wrap_obj tn tgt (Some ?cur) tgt s4 = (ob, s5)" by (cases "wrap_obj tn tgt (Some ?cur) tgt s4")
  obtain ov s6 where w6: "wrap tn rcd (Some ?cur) old s5 = (ov, s6)" by (cases "wrap tn rcd (Some ?cur) old s5")
  obtain nv s7 where w7: "wrap tn rcd (Some ?cur) v s6 = (nv, s7)" by (cases "wrap tn rcd (Some ?cur) v s6")
  have "logs s2 s3" unfolding s3_def using "2.IH" [OF refl g [symmetric] refl w [symmetric]] by simp
  with logs_js_get [OF g] logs_wrap [OF w] logs_wrapRecord [OF wr] logs_wrap_obj [OF wo]
    logs_wrap [OF w6] logs_wrap [OF w7]
  have "logs s s7" by (blast intro: logs_trans)
  then have "logs s (onUpdateRecord
           (Event ev_set tn r (Some ?cur) (Some ob) (Some k) ov nv VUndefined VUndefined []) s7)"
    using logs_onUpdateRecord logs_trans by blast
  then show ?case using g w wr wo w6 w7 by (simp add: Let_def s3_def)
qed


lemma logs_step_wrap: "logs s0 s \<Longrightarrow> wrap tn r c v s = (w, s') \<Longrightarrow> logs s0 s'"
  by (blast intro: logs_trans logs_wrap)

lemma logs_step_wrap_obj: "logs s0 s \<Longrightarrow> wrap_obj tn r c ob s = (p, s') \<Longrightarrow> logs s0 s'"
  by (blast intro: logs_trans logs_wrap_obj)

lemma logs_step_wrapRecord: "logs s0 s \<Longrightarrow> wrapRecord tn r s = (p, s') \<Longrightarrow> logs s0 s'"
  by (blast intro: logs_trans logs_wrapRecord)

lemma logs_step_js_get: "logs s0 s \<Longrightarrow> js_get r k s = (v, s') \<Longrightarrow> logs s0 s'"
  by (blast intro: logs_trans logs_js_get)

lemma logs_step_update: "logs s0 s \<Longrightarrow> logs s0 (onUpdateRecord ev s)"
  by (blast intro: logs_trans logs_onUpdateRecord)

lemma logs_step_heap: "logs s0 s \<Longrightarrow> logs s0 (s\<lparr>heap := h\<rparr>)"
  by (simp add: logs_def)


lemma logs_js_call: "js_call r m as s = (res, s') \<Longrightarrow> logs s s'"
proof (induction r arbitrary: m as s res s')
  case (Raw a)
  then show ?case by (auto simp: logs_def split: prod.splits)
next
  case (Prox tn rcd col tgt)
  note IH = Prox.IH(2)
  define cur where "cur = (case col of Some c \<Rightarrow> c | None \<Rightarrow> KStr (method_name m))"
  define k where "k = kind_of s tgt"
  note run = Prox.prems [unfolded js_call.simps Let_def, folded cur_def k_def]
  let ?mut = "(k = KMap \<or> k = KSet) \<and> m \<in> {m_add, m_set, m_delete, m_clear}"
  let ?get = "(k = KMap \<or> k = KSet) \<and> m = m_get"
  let ?bound = "k = KMap \<or> k = KSet \<or> k = KDate"
  let ?pop = "k = KArray \<and> m \<in> {m_pop, m_shift}"
  let ?push = "k = KArray \<and> m \<in> {m_push, m_unshift}"
  let ?splice = "k = KArray \<and> m = m_splice"
  consider (mutate) ?mut | (get) "\<not> ?mut" ?get | (bound) "\<not> ?mut" "\<not> ?get" ?bound
    | (pop) "\<not> ?mut" "\<not> ?get" "\<not> ?bound" ?pop
    | (push) "\<not> ?mut" "\<not> ?get" "\<not> ?bound" "\<not> ?pop" ?push
    | (splice) "\<not> ?mut" "\<not> ?get" "\<not> ?bound" "\<not> ?pop" "\<not> ?push" ?splice
    | (other) "\<not> ?mut" "\<not> ?get" "\<not> ?bound" "\<not> ?pop" "\<not> ?push" "\<not> ?splice"
    by blast
  then show ?case
  proof cases
    case mutate
    note run1 = run [unfolded if_P [OF mutate]]
    obtain r s1 where w1: "wrapRecord tn rcd s = (r, s1)" by (cases "wrapRecord tn rcd s")
    obtain ob s2 where w2: "wrap_obj tn tgt (Some cur) tgt s1 = (ob, s2)"
      by (cases "wrap_obj tn tgt (Some cur) tgt s1")
    have l2: "logs s s2" using logs_wrapRecord [OF w1] logs_wrap_obj [OF w2] by (rule logs_trans)
    note run2 = run1 [unfolded w1 w2 prod.case]
    show ?thesis
    proof (cases "m \<in> {m_set, m_delete} \<and> k = KMap")
      case True
      note run3 = run2 [unfolded if_P [OF True]]
      obtain g s3 where c3: "js_call tgt m_get [arg 0 as] s2 = (g, s3)"
        by (cases "js_call tgt m_get [arg 0 as] s2")
      note l3 = logs_trans [OF l2 IH [OF c3]]
      show ?thesis
      proof (cases g)
        case (Inl e)
        with run3 c3 l3 show ?thesis by simp
      next
        case (Inr old)
        obtain ov s4 where w4: "wrap tn rcd (Some cur) old s3 = (ov, s4)"
          by (cases "wrap tn rcd (Some cur) old s3")
        let ?s5 = "onUpdateRecord (Event (ev_method m) tn r (Some cur) (Some ob)
                      (Some (KStr (method_name m))) ov VUndefined VUndefined VUndefined as) s4"
        from run3 c3 Inr w4 have "js_call tgt m as ?s5 = (res, s')" by simp
        from IH [OF this] l3 logs_wrap [OF w4] logs_onUpdateRecord show ?thesis
          by (blast intro: logs_trans)
      qed
    next
      case False
      note run3 = run2 [unfolded if_not_P [OF False]]
      from IH [OF run3] l2 logs_onUpdateRecord show ?thesis by (blast intro: logs_trans)
    qed
  next
    case get
    note run1 = run [unfolded if_not_P [OF get(1)] if_P [OF get(2)]]
    obtain g s1 where c1: "js_call tgt m_get [arg 0 as] s = (g, s1)"
      by (cases "js_call tgt m_get [arg 0 as] s")
    show ?thesis
    proof (cases g)
      case (Inl e)
      with run1 c1 IH [OF c1] show ?thesis by simp
    next
      case (Inr v)
      obtain wv s2 where w: "wrap tn tgt (Some cur) v s1 = (wv, s2)"
        by (cases "wrap tn tgt (Some cur) v s1")
      with run1 c1 Inr have "s' = s2" by simp
      with IH [OF c1] logs_wrap [OF w] show ?thesis by (blast intro: logs_trans)
    qed
  next
    case bound
    note run1 = run [unfolded if_not_P [OF bound(1)] if_not_P [OF bound(2)] if_P [OF bound(3)]]
    then show ?thesis by (rule IH)
  next
    case pop
    note run1 = run [unfolded if_not_P [OF pop(1)] if_not_P [OF pop(2)] if_not_P [OF pop(3)]
        if_P [OF pop(4)]]
    obtain d s1 where c1: "js_call tgt m as s = (d, s1)" by (cases "js_call tgt m as s")
    note l1 = IH [OF c1]
    show ?thesis
    proof (cases d)
      case (Inl e)
      with run1 c1 l1 show ?thesis by simp
    next
      case (Inr deletedItems)
      obtain r s2 where w2: "wrapRecord tn rcd s1 = (r, s2)" by (cases "wrapRecord tn rcd s1")
      obtain ob s3 where w3: "wrap_obj tn tgt (Some cur) tgt s2 = (ob, s3)"
        by (cases "wrap_obj tn tgt (Some cur) tgt s2")
      obtain dv s4 where w4: "wrap tn rcd (Some cur) deletedItems s3 = (dv, s4)"
        by (cases "wrap tn rcd (Some cur) deletedItems s3")
      have l4: "logs s s4" using l1 logs_wrapRecord [OF w2] logs_wrap_obj [OF w3] logs_wrap [OF w4]
        by (blast intro: logs_trans)
      from run1 c1 Inr w2 w3 w4 have "\<exists>ev. s' = onUpdateRecord ev s4" by auto
      with l4 logs_onUpdateRecord show ?thesis by (blast intro: logs_trans)
    qed
  next
    case push
    note run1 = run [unfolded if_not_P [OF push(1)] if_not_P [OF push(2)] if_not_P [OF push(3)]
        if_not_P [OF push(4)] if_P [OF push(5)]]
    obtain d s1 where c1: "js_call tgt m as s = (d, s1)" by (cases "js_call tgt m as s")
    note l1 = IH [OF c1]
    show ?thesis
    proof (cases d)
      case (Inl e)
      with run1 c1 l1 show ?thesis by simp
    next
      case (Inr deletedItems)
      obtain r s2 where w2: "wrapRecord tn rcd s1 = (r, s2)" by (cases "wrapRecord tn rcd s1")
      obtain ob s3 where w3: "wrap_obj tn tgt (Some cur) tgt s2 = (ob, s3)"
        by (cases "wrap_obj tn tgt (Some cur) tgt s2")
      have l3: "logs s s3" using l1 logs_wrapRecord [OF w2] logs_wrap_obj [OF w3]
        by (blast intro: logs_trans)
      from run1 c1 Inr w2 w3 have "\<exists>ev. s' = onUpdateRecord ev s3" by auto
      with l3 logs_onUpdateRecord show ?thesis by (blast intro: logs_trans)
    qed
  next
    case splice
    note run1 = run [unfolded if_not_P [OF splice(1)] if_not_P [OF splice(2)] if_not_P [OF splice(3)]
        if_not_P [OF splice(4)] if_not_P [OF splice(5)] if_P [OF splice(6)]]
    obtain d s1 where c1: "js_call tgt m as s = (d, s1)" by (cases "js_call tgt m as s")
    note l1 = IH [OF c1]
    show ?thesis
    proof (cases d)
      case (Inl e)
      with run1 c1 l1 show ?thesis by simp
    next
      case (Inr deletedItems)
      obtain r s2 where w2: "wrapRecord tn rcd s1 = (r, s2)" by (cases "wrapRecord tn rcd s1")
      obtain ob s3 where w3: "wrap_obj tn tgt (Some cur) tgt s2 = (ob, s3)"
        by (cases "wrap_obj tn tgt (Some cur) tgt s2")
      obtain dv s4 where w4: "wrap tn rcd (Some cur) deletedItems s3 = (dv, s4)"
        by (cases "wrap tn rcd (Some cur) deletedItems s3")
      have l4: "logs s s4" using l1 logs_wrapRecord [OF w2] logs_wrap_obj [OF w3] logs_wrap [OF w4]
        by (blast intro: logs_trans)
      from run1 c1 Inr w2 w3 w4 have "\<exists>ev. s' = onUpdateRecord ev s4" by auto
      with l4 logs_onUpdateRecord show ?thesis by (blast intro: logs_trans)
    qed
  next
    case other
    note run1 = run [unfolded if_not_P [OF other(1)] if_not_P [OF other(2)] if_not_P [OF other(3)]
        if_not_P [OF other(4)] if_not_P [OF other(5)] if_not_P [OF other(6)]]
    obtain v s1 where g: "js_get tgt (KStr (method_name m)) s = (v, s1)"
      by (cases "js_get tgt (KStr (method_name m)) s")
    obtain wv s2 where w: "wrap tn rcd (Some cur) v s1 = (wv, s2)"
      by (cases "wrap tn rcd (Some cur) v s1")
    from run1 g w have "s' = s2" by simp
    with logs_js_get [OF g] logs_wrap [OF w] show ?thesis by (blast intro: logs_trans)
  qed
qed


lemma logs_js_delete: "logs s (js_delete r k s)"
proof (induction r k s rule: js_delete.induct)
  case (1 a k s)
  show ?case by (simp add: logs_def)
next
  case (2 tn rcd col tgt k s)
  let ?cur = "case col of Some c \<Rightarrow> c | None \<Rightarrow> k"
  obtain old s1 where g: "js_get tgt k s = (old, s1)" by (cases "js_get tgt k s")
  define s2 where "s2 = js_delete tgt k s1"
  obtain r s3 where wr: "wrapRecord tn rcd s2 = (r, s3)" by (cases "wrapRecord tn rcd s2")
  obtain ob s4 where wo: "wrap_obj tn tgt (Some ?cur) tgt s3 = (ob, s4)"
    by (cases "wrap_obj tn tgt (Some ?cur) tgt s3")
  obtain ov s5 where w5: "wrap tn rcd (Some ?cur) old s4 = (ov, s5)" by (cases "wrap tn rcd (Some ?cur) old s4")
  have "logs s1 s2" unfolding s2_def using "2.IH" [OF refl g [symmetric]] by simp
  with logs_js_get [OF g] logs_wrapRecord [OF wr] logs_wrap_obj [OF wo] logs_wrap [OF w5]
  have "logs s s5" by (blast intro: logs_trans)
  then have "logs s (onUpdateRecord
           (Event ev_delete tn r (Some ?cur) (Some ob) (Some k) ov VUndefined VUndefined VUndefined []) s5)"
    using logs_onUpdateRecord logs_trans by blast
  then show ?case using g wr wo w5 by (simp add: Let_def s2_def)
qed

lemma index_record_only_cache: "index_record wr idxs s = (idx, s') \<Longrightarrow> only_cache s s'"
proof (induction idxs arbitrary: s idx s')
  case Nil
  then show ?case by simp
next
  case (Cons e idxs)
  obtain c m where e: "e = (c, m)" by (cases e)
  obtain v s1 where g: "js_get wr (KStr c) s = (v, s1)" by (cases "js_get wr (KStr c) s")
  obtain rest s2 where r: "index_record wr idxs s1 = (rest, s2)" by (cases "index_record wr idxs s1")
  from Cons.prems e g r have "s' = s2" by simp
  with js_get_only_cache [OF g] Cons.IH [OF r] show ?case by (blast intro: only_cache_trans)
qed

lemma unindex_record_only_cache: "unindex_record wr idxs s = (idx, s') \<Longrightarrow> only_cache s s'"
proof (induction idxs arbitrary: s idx s')
  case Nil
  then show ?case by simp
next
  case (Cons e idxs)
  obtain c m where e: "e = (c, m)" by (cases e)
  obtain v s1 where g: "js_get wr (KStr c) s = (v, s1)" by (cases "js_get wr (KStr c) s")
  obtain rest s2 where r: "unindex_record wr idxs s1 = (rest, s2)" by (cases "unindex_record wr idxs s1")
  from Cons.prems e g r have "s' = s2" by simp
  with js_get_only_cache [OF g] Cons.IH [OF r] show ?case by (blast intro: only_cache_trans)
qed

lemma transactions_upd_table [simp]: "transactions (upd_table tn f s) = transactions s"
  by (simp add: upd_table_def split: option.splits)

lemma transactions_logError [simp]: "transactions (logError e s) = transactions s"
  by (simp add: logError_def)

lemma logs_upd_table: "logs s (upd_table tn f s)"
  by (simp add: logs_def)

lemma logs_insert_record: "insert_record tn r w s = (p, s') \<Longrightarrow> logs s s'"
proof -
  assume run: "insert_record tn r w s = (p, s')"
  obtain idv s1 where g: "js_get r UniqueID s = (idv, s1)" by (cases "js_get r UniqueID s")
  define s2 where "s2 = upd_table tn (\<lambda>t. t\<lparr>records := AList.update idv r (records t)\<rparr>) s1"
  obtain wr s3 where w: "(if w then wrapRecord tn r s2 else (r, s2)) = (wr, s3)"
    by (cases "if w then wrapRecord tn r s2 else (r, s2)")
  obtain idx s4 where ix: "index_record wr (case map_of (data s3) tn of None \<Rightarrow> [] | Some t \<Rightarrow> indices t) s3 = (idx, s4)"
    by (cases "index_record wr (case map_of (data s3) tn of None \<Rightarrow> [] | Some t \<Rightarrow> indices t) s3")
  define s5 where "s5 = upd_table tn (\<lambda>t. t\<lparr>indices := idx\<rparr>) s4"
  from run have s': "s' = onUpdateRecord (Event ev_added tn wr None None None VUndefined VUndefined VUndefined VUndefined []) s5"
    unfolding insert_record_def Let_def g prod.case s2_def [symmetric] w ix s5_def [symmetric] by auto
  have "logs s s1" by (rule logs_js_get [OF g])
  moreover have "logs s1 s2" unfolding s2_def by (rule logs_upd_table)
  moreover have "logs s2 s3" using w by (auto split: if_splits intro: logs_wrapRecord)
  moreover have "logs s3 s4" using ix by (blast intro: logs_only_cache index_record_only_cache)
  moreover have "logs s4 s5" unfolding s5_def by (rule logs_upd_table)
  moreover have "logs s5 s'" unfolding s' by (rule logs_onUpdateRecord)
  ultimately show ?thesis by (blast intro: logs_trans)
qed

lemma logs_addRecord: "addRecord tn r w s = (res, s') \<Longrightarrow> logs s s'"
proof (cases "map_of (data s) tn")
  case None
  assume "addRecord tn r w s = (res, s')"
  with None show ?thesis by (simp add: addRecord_def)
next
  case (Some t)
  assume run: "addRecord tn r w s = (res, s')"
  obtain uid s1 where u: "reserveNextUID tn s = (uid, s1)" by (cases "reserveNextUID tn s")
  obtain p s3 where i: "insert_record tn r w (js_set r UniqueID (VBigInt uid) s1) = (p, s3)"
    by (cases "insert_record tn r w (js_set r UniqueID (VBigInt uid) s1)")
  from run Some u i have "s' = s3" by (simp add: addRecord_def)
  moreover have "logs s s1" using u Some by (auto simp: reserveNextUID_def logs_def)
  moreover have "logs s1 (js_set r UniqueID (VBigInt uid) s1)" by (rule logs_js_set)
  ultimately show ?thesis using logs_insert_record [OF i] by (blast intro: logs_trans)
qed

lemma logs_removeRecord: "logs s (removeRecord tn r s)"
proof (cases "map_of (data s) tn")
  case None
  then show ?thesis by (simp add: removeRecord_def logs_def)
next
  case (Some t)
  obtain idv s1 where g: "js_get r UniqueID s = (idv, s1)" by (cases "js_get r UniqueID s")
  define s2 where "s2 = upd_table tn (\<lambda>t. t\<lparr>records := AList.delete idv (records t)\<rparr>) s1"
  obtain idx s3 where ix: "unindex_record r (indices t) s2 = (idx, s3)"
    by (cases "unindex_record r (indices t) s2")
  define s4 where "s4 = upd_table tn (\<lambda>t. t\<lparr>indices := idx\<rparr>) s3"
  have l1: "logs s s1" by (rule logs_js_get [OF g])
  have "logs s1 s2" unfolding s2_def by (rule logs_upd_table)
  moreover have "logs s2 s3" using ix by (blast intro: logs_only_cache unindex_record_only_cache)
  moreover have "logs s3 s4" unfolding s4_def by (rule logs_upd_table)
  ultimately have l4: "logs s s4" using l1 by (blast intro: logs_trans)
  have "removeRecord tn r s = logError ''Could not find UID in record object for removal.'' s1
      \<or> (\<exists>e. removeRecord tn r s = logError e s1)
      \<or> (\<exists>ev. removeRecord tn r s = onUpdateRecord ev s4)"
    unfolding removeRecord_def Some option.case g prod.case Let_def s2_def [symmetric] ix s4_def [symmetric]
    by auto
  then show ?thesis using l1 l4 logs_onUpdateRecord [of s4]
    by (auto simp: logs_def intro: frames_kept_trans)
qed

lemma read_elems_only_cache: "read_elems r is s = (vs, s') \<Longrightarrow> only_cache s s'"
proof (induction "is" arbitrary: s vs s')
  case Nil
  then show ?case by simp
next
  case (Cons i "is")
  obtain v s1 where g: "js_get r (KStr (show_nat i)) s = (v, s1)" by (cases "js_get r (KStr (show_nat i)) s")
  obtain rest s2 where r: "read_elems r is s1 = (rest, s2)" by (cases "read_elems r is s1")
  from Cons.prems g r have "s' = s2" by simp
  with js_get_only_cache [OF g] Cons.IH [OF r] show ?case by (blast intro: only_cache_trans)
qed

lemma spread_only_cache: "spread v s = (res, s') \<Longrightarrow> only_cache s s'"
  by (auto simp: spread_def split: val.splits if_splits prod.splits
      dest!: js_get_only_cache read_elems_only_cache intro: only_cache_trans)

lemma logs_call_stmt: "call_stmt r m as s = (res, s') \<Longrightarrow> logs s s'"
  by (auto simp: call_stmt_def split: prod.splits sum.splits dest: logs_js_call)


lemma logs_rollback_change: "rollback_change c s = (res, s') \<Longrightarrow> logs s s'"
proof -
  assume run: "rollback_change c s = (res, s')"
  show ?thesis
  proof (cases "etype c")
    case ev_added
    with run show ?thesis by (auto simp: rollback_change_def intro: logs_removeRecord)
  next
    case ev_removed
    with run show ?thesis
      by (auto simp: rollback_change_def split: prod.splits sum.splits dest: logs_addRecord)
  next
    case ev_delete
    with run show ?thesis
      by (auto simp: rollback_change_def split: option.splits intro: logs_js_set)
  next
    case ev_set
    with run show ?thesis
      by (auto simp: rollback_change_def split: option.splits intro: logs_js_set)
  next
    case (ev_method m)
    show ?thesis
    proof (cases "eobject c")
      case None
      with run ev_method show ?thesis by (simp add: rollback_change_def)
    next
      case (Some ob)
      note unf = run [unfolded rollback_change_def ev_method evtype.case Some option.case]
      show ?thesis
      proof (cases m)
        case m_add
        with unf show ?thesis by (auto dest: logs_call_stmt)
      next
        case m_set
        obtain b s1 where h: "js_call ob m_has [arg 0 (eargs c)] s = (b, s1)"
          by (cases "js_call ob m_has [arg 0 (eargs c)] s")
        from unf m_set h logs_js_call [OF h] show ?thesis
          by (auto split: sum.splits if_splits dest!: logs_call_stmt intro: logs_trans)
      next
        case m_delete
        with unf show ?thesis by (auto split: if_splits dest: logs_call_stmt)
      next
        case m_clear
        with unf show ?thesis by simp
      next
        case m_get
        with unf show ?thesis by simp
      next
        case m_has
        with unf show ?thesis by simp
      next
        case m_push
        obtain len s1 where g: "js_get ob (KStr ''length'') s = (len, s1)"
          by (cases "js_get ob (KStr ''length'') s")
        from unf m_push g logs_js_get [OF g] show ?thesis
          by (auto split: if_splits dest!: logs_call_stmt intro: logs_trans)
      next
        case m_pop
        with unf show ?thesis by (auto split: if_splits dest: logs_call_stmt)
      next
        case m_shift
        with unf show ?thesis by (auto split: if_splits dest: logs_call_stmt)
      next
        case m_unshift
        obtain len s1 where g: "js_get ob (KStr ''length'') s = (len, s1)"
          by (cases "js_get ob (KStr ''length'') s")
        from unf m_unshift g logs_js_get [OF g] show ?thesis
          by (auto split: if_splits dest!: logs_call_stmt intro: logs_trans)
      next
        case m_splice
        show ?thesis
        proof (cases "kind_of s ob = KArray")
          case False
          with unf m_splice show ?thesis by simp
        next
          case True
          let ?a1 = "[arg 0 (eargs c), VNum (max 0 (int (length (eargs c)) - 2))]"
          obtain r1 s1 where c1: "call_stmt ob m_splice ?a1 s = (r1, s1)"
            by (cases "call_stmt ob m_splice ?a1 s")
          note l1 = logs_call_stmt [OF c1]
          show ?thesis
          proof (cases r1)
            case (Inl e)
            with unf m_splice True c1 l1 show ?thesis by simp
          next
            case (Inr u)
            obtain r2 s2 where c2: "spread (edeletedValues c) s1 = (r2, s2)"
              by (cases "spread (edeletedValues c) s1")
            note l2 = logs_trans [OF l1 logs_only_cache [OF spread_only_cache [OF c2]]]
            show ?thesis
            proof (cases r2)
              case (Inl e)
              with unf m_splice True c1 \<open>r1 = Inr u\<close> c2 l2 show ?thesis by simp
            next
              case (Inr dvs)
              with unf m_splice True c1 \<open>r1 = Inr u\<close> c2
              have "call_stmt ob m_splice ([arg 0 (eargs c), VNum 0] @ dvs) s2 = (res, s')" by simp
              from logs_call_stmt [OF this] l2 show ?thesis by (blast intro: logs_trans)
            qed
          qed
        qed
      qed
    qed
  qed
qed

lemma logs_rollback_changes: "rollback_changes cs s = (res, s') \<Longrightarrow> logs s s'"
proof (induction cs arbitrary: s res s')
  case Nil
  then show ?case by simp
next
  case (Cons c cs)
  obtain r1 s1 where c1: "rollback_change c s = (r1, s1)" by (cases "rollback_change c s")
  note l1 = logs_rollback_change [OF c1]
  show ?case
  proof (cases r1)
    case (Inl e)
    with Cons.prems c1 l1 show ?thesis by simp
  next
    case (Inr u)
    with Cons.prems c1 have "rollback_changes cs s1 = (res, s')" by simp
    from Cons.IH [OF this] l1 show ?thesis by (blast intro: logs_trans)
  qed
qed

text \<open>
  What the two operations do to the stack of frames. With no frame open,
  \<^verbatim>\<open>commitTransaction\<close> and \<^verbatim>\<open>rollbackTransaction\<close> throw and leave the state as it was. With
  a frame open, commit removes the innermost frame and changes nothing else; rollback,
  whether it completes or throws on the way, removes the innermost frame, and each frame
  below remains open and still begins with the events it held.
\<close>

lemma transaction_control:
  "(transactions s = [] \<longrightarrow>
      commitTransaction s =
        (Inl (Error ''No transaction to commit. Did you forget to call beginTransaction()?''), s) \<and>
      rollbackTransaction s =
        (Inl (Error ''No transaction to rollback. Did you forget to call beginTransaction()?''), s)) \<and>
   (transactions s \<noteq> [] \<longrightarrow>
      commitTransaction s = (Inr (), s\<lparr>transactions := butlast (transactions s)\<rparr>) \<and>
      frames_kept (butlast (transactions s)) (transactions (snd (rollbackTransaction s))))"
proof (intro conjI impI)
  assume ne: "transactions s \<noteq> []"
  obtain res s' where r: "rollback_changes (rev (last (transactions s))) (s\<lparr>transactions := butlast (transactions s)\<rparr>) = (res, s')"
    by (cases "rollback_changes (rev (last (transactions s))) (s\<lparr>transactions := butlast (transactions s)\<rparr>)")
  from logs_rollback_changes [OF r] ne r
  show "frames_kept (butlast (transactions s)) (transactions (snd (rollbackTransaction s)))"
    by (simp add: rollbackTransaction_def logs_def)
qed (simp_all add: commitTransaction_def rollbackTransaction_def)


lemma transaction_control_on_nested_add:
  "(transactions john_added = [] \<and>
    commitTransaction john_added =
      (Inl (Error ''No transaction to commit. Did you forget to call beginTransaction()?''), john_added) \<and>
    rollbackTransaction john_added =
      (Inl (Error ''No transaction to rollback. Did you forget to call beginTransaction()?''), john_added)) \<and>
   (transactions nested_add \<noteq> [] \<and>
    commitTransaction nested_add = (Inr (), nested_add\<lparr>transactions := butlast (transactions nested_add)\<rparr>) \<and>
    frames_kept (butlast (transactions nested_add)) (transactions (snd (rollbackTransaction nested_add))))"
proof -
  have e: "transactions john_added = []" by code_simp
  have "length (transactions nested_add) = 2" by code_simp
  then have n: "transactions nested_add \<noteq> []" by auto
  from transaction_control [of john_added] e transaction_control [of nested_add] n
  show ?thesis by blast
qed

text \<open>
  Claim C9 (the code departs from it): with frames nested, a rollback acts on the innermost
  frame only. In the run \<open>nested_add\<close> the outer frame is empty, the inner frame holds the
  one \<^verbatim>\<open>method.add\<close> event and the set of the record is \<^verbatim>\<open>{a, b, c}\<close>. The rollback of the
  inner frame pops it and then undoes the event by calling \<^verbatim>\<open>delete\<close> on the wrapped set;
  the proxy reports that call as a \<^verbatim>\<open>method.delete\<close> event, which is written to the outer
  frame. The set is \<^verbatim>\<open>{a, b}\<close> again, but the outer frame, in which nothing happened, now
  holds an event, and its rollback replays it: after both rollbacks the set is
  \<^verbatim>\<open>{a, b, c}\<close>, the change of the inner transaction done again.
\<close>

theorem outer_rollback_redoes_inner_change:
  "map (map etype) (transactions nested_add) = [[], [ev_method m_add]]
   \<and> heap nested_add ! 1 = HSet [VStr ''a'', VStr ''b'', VStr ''c'']
   \<and> fst (rollbackTransaction nested_add) = Inr ()
   \<and> map (map etype) (transactions (snd (rollbackTransaction nested_add))) = [[ev_method m_delete]]
   \<and> heap (snd (rollbackTransaction nested_add)) ! 1 = HSet [VStr ''a'', VStr ''b'']
   \<and> fst (rollbackTransaction (snd (rollbackTransaction nested_add))) = Inr ()
   \<and> transactions nested_rolled_back = []
   \<and> heap nested_rolled_back ! 1 = HSet [VStr ''a'', VStr ''b'', VStr ''c'']"
  by code_simp

section \<open>The index invariant\<close>

text \<open>
  The operations of the store against the invariant of the indices. Adding, setting and
  removing a record, adding an index, and assigning a defined value to a field through the
  record's handle keep it; deleting an indexed field through the handle does not, because
  \<^verbatim>\<open>onUpdateRecord\<close> then files the record under the key \<^verbatim>\<open>undefined\<close>.
\<close>

lemma plain_iff:
  "(case r of Raw a \<Rightarrow> P a | Prox tn' rcd col tgt \<Rightarrow> False) \<longleftrightarrow> (\<exists>a. r = Raw a \<and> P a)"
  by (cases r) auto

lemma index_ok_alt:
  "index_ok s tn \<longleftrightarrow>
     (case map_of (data s) tn of
        None \<Rightarrow> False
      | Some t \<Rightarrow>
          (\<forall>(uid, r) \<in> set (records t).
             is_prim uid \<and>
             (\<exists>a. r = Raw a \<and> a < length (heap s) \<and> kind_of s r = KObject \<and> col_at s a UniqueID = uid)) \<and>
          distinct (map fst (indices t)) \<and>
          (\<forall>(c, m) \<in> set (indices t).
             (\<forall>(uid, r) \<in> set (records t). present s m c (raw_of r)) \<and>
             (\<forall>(k, b) \<in> set m. \<forall>x \<in> set b. col_at s (raw_of x) (KStr c) \<noteq> VUndefined)))"
  unfolding index_ok_def plain_iff ..




lemma in_update_cases:
  "(k', v') \<in> set (AList.update k v al) \<Longrightarrow> (k', v') = (k, v) \<or> (k', v') \<in> set al"
  by (induction al) (auto split: if_splits)

lemma holds_set_add: "holds b a \<Longrightarrow> holds (set_add r b) a"
  by (auto simp: holds_def set_add_def)

lemma holds_set_add_self: "holds (set_add r b) (raw_of r)"
  by (auto simp: holds_def set_add_def)


lemma bucket_add_keeps:
  "map_of m k = Some b \<Longrightarrow> holds b a \<Longrightarrow> \<exists>b'. map_of (bucket_add v r m) k = Some b' \<and> holds b' a"
  by (auto simp: bucket_add_def update_conv' holds_set_add split: option.splits)

lemma bucket_add_self: "\<exists>b'. map_of (bucket_add v r m) v = Some b' \<and> holds b' (raw_of r)"
  by (auto simp: bucket_add_def update_conv' holds_def set_add_def split: option.splits)

lemma bucket_add_members:
  "(k, b') \<in> set (bucket_add v r m) \<Longrightarrow> x \<in> set b' \<Longrightarrow> x = r \<or> (\<exists>b. (k, b) \<in> set m \<and> x \<in> set b)"
  by (auto simp: bucket_add_def set_add_def split: option.splits if_splits
      dest!: in_update_cases map_of_SomeD)







text \<open>The condition \<open>index_ok\<close>, taken apart and put together.\<close>

lemma index_okI:
  assumes "map_of (data s) tn = Some t"
    and "\<And>uid r. (uid, r) \<in> set (records t) \<Longrightarrow>
           is_prim uid \<and> (\<exists>a. r = Raw a \<and> a < length (heap s) \<and> kind_of s r = KObject \<and> col_at s a UniqueID = uid)"
    and "distinct (map fst (indices t))"
    and "\<And>c m uid r. (c, m) \<in> set (indices t) \<Longrightarrow> (uid, r) \<in> set (records t) \<Longrightarrow> present s m c (raw_of r)"
    and "\<And>c m k b x. (c, m) \<in> set (indices t) \<Longrightarrow> (k, b) \<in> set m \<Longrightarrow> x \<in> set b \<Longrightarrow>
           col_at s (raw_of x) (KStr c) \<noteq> VUndefined"
  shows "index_ok s tn"
  unfolding index_ok_alt using assms by (simp add: case_prod_beta') (metis prod.collapse)

lemma index_okD:
  assumes "index_ok s tn"
  obtains t where "map_of (data s) tn = Some t"
    and "\<And>uid r. (uid, r) \<in> set (records t) \<Longrightarrow>
           is_prim uid \<and> (\<exists>a. r = Raw a \<and> a < length (heap s) \<and> kind_of s r = KObject \<and> col_at s a UniqueID = uid)"
    and "distinct (map fst (indices t))"
    and "\<And>c m uid r. (c, m) \<in> set (indices t) \<Longrightarrow> (uid, r) \<in> set (records t) \<Longrightarrow> present s m c (raw_of r)"
    and "\<And>c m k b x. (c, m) \<in> set (indices t) \<Longrightarrow> (k, b) \<in> set m \<Longrightarrow> x \<in> set b \<Longrightarrow>
           col_at s (raw_of x) (KStr c) \<noteq> VUndefined"
proof (cases "map_of (data s) tn")
  case None
  with assms show ?thesis by (simp add: index_ok_alt)
next
  case (Some t)
  with assms have "(\<forall>(uid, r) \<in> set (records t).
             is_prim uid \<and> (\<exists>a. r = Raw a \<and> a < length (heap s) \<and> kind_of s r = KObject \<and> col_at s a UniqueID = uid))"
    "distinct (map fst (indices t))"
    "(\<forall>(c, m) \<in> set (indices t).
             (\<forall>(uid, r) \<in> set (records t). present s m c (raw_of r)) \<and>
             (\<forall>(k, b) \<in> set m. \<forall>x \<in> set b. col_at s (raw_of x) (KStr c) \<noteq> VUndefined))"
    by (simp_all add: index_ok_alt)
  with Some that [of t] show ?thesis by fast
qed












lemma index_ok_cong:
  assumes "heap s' = heap s" "data s' = data s"
  shows "index_ok s' tn = index_ok s tn"
proof -
  have c: "col_at s' = col_at s" using assms by (simp add: fun_eq_iff col_at_def)
  have k: "kind_of s' = kind_of s" using assms by (simp add: fun_eq_iff kind_of_def)
  have p: "present s' = present s" by (simp add: fun_eq_iff present_def c)
  show ?thesis unfolding index_ok_alt c k p assms ..
qed

lemma heap_onUpdateRecord [simp]: "heap (onUpdateRecord ev s) = heap s"
  by (simp add: onUpdateRecord_def reindex_def push_change_def Let_def split: option.splits pkey.splits)







lemma in_update_distinct:
  assumes "distinct (map fst al)" "(k', v') \<in> set (AList.update k v al)"
  shows "(k' = k \<and> v' = v) \<or> (k' \<noteq> k \<and> (k', v') \<in> set al)"
proof -
  from assms(1) have "distinct (map fst (AList.update k v al))" by (rule distinct_update)
  with assms(2) have "map_of (AList.update k v al) k' = Some v'" by simp
  then show ?thesis by (auto simp: update_conv' dest: map_of_SomeD split: if_splits)
qed





lemma build_index_raw:
  assumes "\<forall>r \<in> set rs. \<exists>a. r = Raw a" "build_index c rs m s = (m', s')"
  shows "s' = s \<and>
    (\<forall>k b a. map_of m k = Some b \<longrightarrow> holds b a \<longrightarrow> (\<exists>b'. map_of m' k = Some b' \<and> holds b' a)) \<and>
    (\<forall>r \<in> set rs. col_at s (raw_of r) (KStr c) \<noteq> VUndefined \<longrightarrow>
        (\<exists>b'. map_of m' (col_at s (raw_of r) (KStr c)) = Some b' \<and> holds b' (raw_of r))) \<and>
    (\<forall>k b' x. (k, b') \<in> set m' \<longrightarrow> x \<in> set b' \<longrightarrow>
        (x \<in> set rs \<and> col_at s (raw_of x) (KStr c) \<noteq> VUndefined) \<or> (\<exists>b. (k, b) \<in> set m \<and> x \<in> set b))"
  using assms
proof (induction rs arbitrary: m)
  case Nil
  then show ?case by auto
next
  case (Cons r rs)
  from Cons.prems(1) obtain a where r: "r = Raw a" by auto
  let ?v = "col_at s a (KStr c)"
  let ?m1 = "if ?v \<noteq> VUndefined then bucket_add ?v r m else m"
  have step: "build_index c rs ?m1 s = (m', s')"
    using Cons.prems(2) by (auto simp: r col_at_def split: if_splits)
  from Cons.prems(1) have raws: "\<forall>r \<in> set rs. \<exists>a. r = Raw a" by simp
  from Cons.IH [OF raws step]
  have s: "s' = s"
    and keep1: "\<And>k b a. map_of ?m1 k = Some b \<Longrightarrow> holds b a \<Longrightarrow> \<exists>b'. map_of m' k = Some b' \<and> holds b' a"
    and self1: "\<And>x. x \<in> set rs \<Longrightarrow> col_at s (raw_of x) (KStr c) \<noteq> VUndefined \<Longrightarrow>
        \<exists>b'. map_of m' (col_at s (raw_of x) (KStr c)) = Some b' \<and> holds b' (raw_of x)"
    and mem1: "\<And>k b' x. (k, b') \<in> set m' \<Longrightarrow> x \<in> set b' \<Longrightarrow>
        (x \<in> set rs \<and> col_at s (raw_of x) (KStr c) \<noteq> VUndefined) \<or> (\<exists>b. (k, b) \<in> set ?m1 \<and> x \<in> set b)"
    by blast+
  have keep: "\<exists>b'. map_of m' k = Some b' \<and> holds b' a'" if "map_of m k = Some b" "holds b a'" for k b a'
  proof -
    from that have "\<exists>b1. map_of ?m1 k = Some b1 \<and> holds b1 a'"
      using bucket_add_keeps [of m k b a' ?v r] by auto
    then show ?thesis using keep1 by blast
  qed
  have self: "\<exists>b'. map_of m' (col_at s (raw_of x) (KStr c)) = Some b' \<and> holds b' (raw_of x)"
    if "x \<in> set (r # rs)" "col_at s (raw_of x) (KStr c) \<noteq> VUndefined" for x
  proof (cases "x = r")
    case True
    with that(2) have "\<exists>b1. map_of ?m1 ?v = Some b1 \<and> holds b1 a"
      using bucket_add_self [of ?v r m] by (simp add: r)
    then show ?thesis using keep1 True by (auto simp: r)
  next
    case False
    with that self1 show ?thesis by simp
  qed
  have mem: "(x \<in> set (r # rs) \<and> col_at s (raw_of x) (KStr c) \<noteq> VUndefined) \<or> (\<exists>b. (k, b) \<in> set m \<and> x \<in> set b)"
    if "(k, b') \<in> set m'" "x \<in> set b'" for k b' x
  proof -
    from mem1 [OF that] consider "x \<in> set rs" "col_at s (raw_of x) (KStr c) \<noteq> VUndefined"
      | b where "(k, b) \<in> set ?m1" "x \<in> set b" by blast
    then show ?thesis
    proof cases
      case 1
      then show ?thesis by simp
    next
      case 2
      then show ?thesis
        using bucket_add_members [of k b ?v r m x] by (auto simp: r split: if_splits)
    qed
  qed
  from s keep self mem show ?case by blast
qed

lemma addIndex_ok:
  assumes ok: "index_ok s tn"
  shows "index_ok (addIndex tn c s) tn"
proof -
  from ok obtain t where t: "map_of (data s) tn = Some t"
    and recs: "\<And>k r. (k, r) \<in> set (records t) \<Longrightarrow>
           is_prim k \<and> (\<exists>a. r = Raw a \<and> a < length (heap s) \<and> kind_of s r = KObject \<and> col_at s a UniqueID = k)"
    and dist: "distinct (map fst (indices t))"
    and pres: "\<And>c m k r. (c, m) \<in> set (indices t) \<Longrightarrow> (k, r) \<in> set (records t) \<Longrightarrow> present s m c (raw_of r)"
    and defd: "\<And>c m k b x. (c, m) \<in> set (indices t) \<Longrightarrow> (k, b) \<in> set m \<Longrightarrow> x \<in> set b \<Longrightarrow>
           col_at s (raw_of x) (KStr c) \<noteq> VUndefined"
    by (auto elim!: index_okD)
  show ?thesis
  proof (cases "map_of (indices t) c")
    case (Some m)
    then have "\<exists>e. addIndex tn c s = logError e s" using t by (auto simp: addIndex_def)
    then obtain e where "addIndex tn c s = logError e s" ..
    moreover have "index_ok (logError e s) tn = index_ok s tn"
      by (intro index_ok_cong) (simp_all add: logError_def)
    ultimately show ?thesis using ok by simp
  next
    case None
    obtain im s1 where b: "build_index c (map snd (records t)) [] s = (im, s1)"
      by (cases "build_index c (map snd (records t)) [] s")
    have raws: "\<forall>r \<in> set (map snd (records t)). \<exists>a. r = Raw a" using recs by fastforce
    from build_index_raw [OF raws b]
    have s1: "s1 = s"
      and self: "\<And>x. x \<in> set (map snd (records t)) \<Longrightarrow> col_at s (raw_of x) (KStr c) \<noteq> VUndefined \<Longrightarrow>
        \<exists>b'. map_of im (col_at s (raw_of x) (KStr c)) = Some b' \<and> holds b' (raw_of x)"
      and mem: "\<And>k b' x. (k, b') \<in> set im \<Longrightarrow> x \<in> set b' \<Longrightarrow>
        (x \<in> set (map snd (records t)) \<and> col_at s (raw_of x) (KStr c) \<noteq> VUndefined)"
      by (simp, blast, fastforce)
    let ?t' = "t\<lparr>indices := AList.update c im (indices t)\<rparr>"
    let ?s' = "s\<lparr>data := AList.update tn ?t' (data s)\<rparr>"
    have res: "addIndex tn c s = ?s'"
      using t None b s1 by (simp add: addIndex_def upd_table_data)
    have t': "map_of (data ?s') tn = Some ?t'" by (simp add: update_conv')
    have col': "col_at ?s' a k = col_at s a k" for a k by (simp add: col_at_def)
    have kind': "kind_of ?s' r = kind_of s r" for r by (simp add: kind_of_def)
    have ix: "(c' = c \<and> m' = im) \<or> (c' \<noteq> c \<and> (c', m') \<in> set (indices t))"
      if "(c', m') \<in> set (indices ?t')" for c' m'
      using in_update_distinct [OF dist, of c' m' c im] that by simp
    show ?thesis unfolding res
    proof (rule index_okI [OF t'])
      fix k r
      assume "(k, r) \<in> set (records ?t')"
      then have "(k, r) \<in> set (records t)" by simp
      from recs [OF this]
      show "is_prim k \<and> (\<exists>a. r = Raw a \<and> a < length (heap ?s') \<and> kind_of ?s' r = KObject \<and> col_at ?s' a UniqueID = k)"
        unfolding col' kind' by simp
    next
      show "distinct (map fst (indices ?t'))" using dist by (simp add: distinct_update)
    next
      fix c' m' k r
      assume cm: "(c', m') \<in> set (indices ?t')" and "(k, r) \<in> set (records ?t')"
      then have kr: "(k, r) \<in> set (records t)" by simp
      from ix [OF cm] show "present ?s' m' c' (raw_of r)"
      proof (elim disjE conjE)
        assume c: "c' = c" "m' = im"
        from kr have "r \<in> set (map snd (records t))" by force
        from self [OF this] show ?thesis unfolding c present_def col' by auto
      next
        assume "(c', m') \<in> set (indices t)"
        from pres [OF this kr] show ?thesis by (simp add: present_def col')
      qed
    next
      fix c' m' k b' x
      assume cm: "(c', m') \<in> set (indices ?t')" and kb: "(k, b') \<in> set m'" and x: "x \<in> set b'"
      from ix [OF cm] show "col_at ?s' (raw_of x) (KStr c') \<noteq> VUndefined"
      proof (elim disjE conjE)
        assume c: "c' = c" "m' = im"
        from mem [OF kb [unfolded c] x] show ?thesis unfolding c col' by simp
      next
        assume "(c', m') \<in> set (indices t)"
        from defd [OF this kb x] show ?thesis unfolding col' .
      qed
    qed
  qed
qed







lemma wrapped_upd_table [simp]: "wrapped (upd_table tn f s) = wrapped s"
  by (simp add: upd_table_def split: option.splits)

lemma wrapped_logError [simp]: "wrapped (logError e s) = wrapped s"
  by (simp add: logError_def)






















section \<open>Lookup by column, with and without an index\<close>




lemma index_exactD:
  assumes "index_exact s tn"
  obtains t where "map_of (data s) tn = Some t" "index_ok s tn"
    and "\<And>uid r. (uid, r) \<in> set (records t) \<Longrightarrow> \<exists>u l. uid = VBigInt u \<and> lastUID t = Some l \<and> u \<le> l"
    and "\<And>c m k b x. (c, m) \<in> set (indices t) \<Longrightarrow> (k, b) \<in> set m \<Longrightarrow> x \<in> set b \<Longrightarrow>
           col_at s (raw_of x) (KStr c) = k \<and> Raw (raw_of x) \<in> snd ` set (records t)"
proof (cases "map_of (data s) tn")
  case None
  with assms show ?thesis by (simp add: index_exact_def)
next
  case (Some t)
  with assms have ok: "index_ok s tn"
    and u: "\<forall>(uid, r) \<in> set (records t).
             case uid of
               VBigInt u \<Rightarrow> (case lastUID t of Some l \<Rightarrow> u \<le> l | None \<Rightarrow> False)
             | _ \<Rightarrow> False"
    and m: "\<forall>(c, m) \<in> set (indices t). \<forall>(k, b) \<in> set m. \<forall>x \<in> set b.
             col_at s (raw_of x) (KStr c) = k \<and> Raw (raw_of x) \<in> snd ` set (records t)"
    by (simp_all add: index_exact_def)
  have 1: "\<exists>u l. uid = VBigInt u \<and> lastUID t = Some l \<and> u \<le> l" if "(uid, r) \<in> set (records t)" for uid r
    using bspec [OF u that] by (auto split: val.splits option.splits)
  have 2: "col_at s (raw_of x) (KStr c) = k \<and> Raw (raw_of x) \<in> snd ` set (records t)"
    if "(c, m) \<in> set (indices t)" "(k, b) \<in> set m" "x \<in> set b" for c m k b x
    using bspec [OF bspec [OF bspec [OF m that(1), simplified] that(2), simplified] that(3)] .
  from that [OF Some ok 1 2] show ?thesis .
qed



lemma bucket_add_where:
  "(k, b') \<in> set (bucket_add v r m) \<Longrightarrow> x \<in> set b' \<Longrightarrow>
     (k = v \<and> x = r) \<or> (\<exists>b. (k, b) \<in> set m \<and> x \<in> set b)"
  by (auto simp: bucket_add_def set_add_def split: option.splits if_splits
      dest!: in_update_cases map_of_SomeD)



lemma index_exactI:
  assumes "map_of (data s) tn = Some t" "index_ok s tn"
    and "\<And>uid r. (uid, r) \<in> set (records t) \<Longrightarrow> \<exists>u l. uid = VBigInt u \<and> lastUID t = Some l \<and> u \<le> l"
    and "\<And>c m k b x. (c, m) \<in> set (indices t) \<Longrightarrow> (k, b) \<in> set m \<Longrightarrow> x \<in> set b \<Longrightarrow>
           col_at s (raw_of x) (KStr c) = k \<and> Raw (raw_of x) \<in> snd ` set (records t)"
  shows "index_exact s tn"
proof -
  have "case uid of VBigInt u \<Rightarrow> (case lastUID t of Some l \<Rightarrow> u \<le> l | None \<Rightarrow> False) | _ \<Rightarrow> False"
    if "(uid, r) \<in> set (records t)" for uid r
    using assms(3) [OF that] by auto
  then have 1: "\<forall>(uid, r) \<in> set (records t).
             case uid of
               VBigInt u \<Rightarrow> (case lastUID t of Some l \<Rightarrow> u \<le> l | None \<Rightarrow> False)
             | _ \<Rightarrow> False" by blast
  have 2: "\<forall>(c, m) \<in> set (indices t). \<forall>(k, b) \<in> set m. \<forall>x \<in> set b.
             col_at s (raw_of x) (KStr c) = k \<and> Raw (raw_of x) \<in> snd ` set (records t)"
    using assms(4) by blast
  from assms(1,2) 1 2 show ?thesis unfolding index_exact_def by simp
qed


lemma index_exact_cong:
  assumes "heap s' = heap s" "data s' = data s"
  shows "index_exact s' tn = index_exact s tn"
proof -
  have c: "col_at s' = col_at s" using assms by (simp add: fun_eq_iff col_at_def)
  show ?thesis unfolding index_exact_def index_ok_cong [OF assms] c assms(2) ..
qed

lemma build_index_where:
  assumes "\<forall>r \<in> set rs. \<exists>a. r = Raw a" "build_index c rs m s = (m', s')"
    "(k, b') \<in> set m'" "x \<in> set b'"
  shows "(x \<in> set rs \<and> col_at s (raw_of x) (KStr c) = k) \<or> (\<exists>b. (k, b) \<in> set m \<and> x \<in> set b)"
  using assms
proof (induction rs arbitrary: m)
  case Nil
  then show ?case by auto
next
  case (Cons r rs)
  from Cons.prems(1) obtain a where r: "r = Raw a" by auto
  let ?v = "col_at s a (KStr c)"
  let ?m1 = "if ?v \<noteq> VUndefined then bucket_add ?v r m else m"
  have step: "build_index c rs ?m1 s = (m', s')"
    using Cons.prems(2) by (auto simp: r col_at_def split: if_splits)
  from Cons.prems(1) have raws: "\<forall>r \<in> set rs. \<exists>a. r = Raw a" by simp
  from Cons.IH [OF raws step Cons.prems(3,4)]
  consider "x \<in> set rs" "col_at s (raw_of x) (KStr c) = k" | b where "(k, b) \<in> set ?m1" "x \<in> set b"
    by blast
  then show ?case
  proof cases
    case 1
    then show ?thesis by simp
  next
    case 2
    then show ?thesis
      using bucket_add_where [of k b ?v r m x] by (auto simp: r split: if_splits)
  qed
qed

lemma addIndex_exact:
  assumes ex: "index_exact s tn"
  shows "index_exact (addIndex tn c s) tn"
proof -
  from ex obtain t where t: "map_of (data s) tn = Some t" and ok: "index_ok s tn"
    and keys: "\<And>uid r. (uid, r) \<in> set (records t) \<Longrightarrow> \<exists>u l. uid = VBigInt u \<and> lastUID t = Some l \<and> u \<le> l"
    and mem: "\<And>c m k b x. (c, m) \<in> set (indices t) \<Longrightarrow> (k, b) \<in> set m \<Longrightarrow> x \<in> set b \<Longrightarrow>
           col_at s (raw_of x) (KStr c) = k \<and> Raw (raw_of x) \<in> snd ` set (records t)"
    by (rule index_exactD) blast
  from ok t obtain
    recs0: "\<And>k r. (k, r) \<in> set (records t) \<Longrightarrow>
           is_prim k \<and> (\<exists>a. r = Raw a \<and> a < length (heap s) \<and> kind_of s r = KObject \<and> col_at s a UniqueID = k)"
    and dist: "distinct (map fst (indices t))"
    by (auto elim!: index_okD)
  show ?thesis
  proof (cases "map_of (indices t) c")
    case (Some m)
    then have "\<exists>e. addIndex tn c s = logError e s" using t by (auto simp: addIndex_def)
    then obtain e where e: "addIndex tn c s = logError e s" ..
    have "index_exact (logError e s) tn = index_exact s tn"
      by (rule index_exact_cong) (simp_all add: logError_def)
    with ex e show ?thesis by simp
  next
    case None
    obtain im s1 where b: "build_index c (map snd (records t)) [] s = (im, s1)"
      by (cases "build_index c (map snd (records t)) [] s")
    have raws: "\<forall>r \<in> set (map snd (records t)). \<exists>a. r = Raw a" using recs0 by fastforce
    let ?t' = "t\<lparr>indices := AList.update c im (indices t)\<rparr>"
    let ?s' = "s\<lparr>data := AList.update tn ?t' (data s)\<rparr>"
    from build_index_raw [OF raws b] have s1: "s1 = s" by simp
    have res: "addIndex tn c s = ?s'"
      using t None b s1 by (simp add: addIndex_def upd_table_data)
    have t': "map_of (data ?s') tn = Some ?t'" by (simp add: update_conv')
    have col': "col_at ?s' a k = col_at s a k" for a k by (simp add: col_at_def)
    have ok': "index_ok ?s' tn" using addIndex_ok [OF ok, of c] by (simp add: res)
    have ix: "(c' = c \<and> m' = im) \<or> (c' \<noteq> c \<and> (c', m') \<in> set (indices t))"
      if "(c', m') \<in> set (indices ?t')" for c' m'
      using in_update_distinct [OF dist, of c' m' c im] that by simp
    show ?thesis unfolding res
    proof (rule index_exactI [OF t' ok'])
      fix uid r
      assume "(uid, r) \<in> set (records ?t')"
      then have "(uid, r) \<in> set (records t)" by simp
      from keys [OF this] show "\<exists>u l. uid = VBigInt u \<and> lastUID ?t' = Some l \<and> u \<le> l" by simp
    next
      fix c' m' k b' x
      assume cm: "(c', m') \<in> set (indices ?t')" and kb: "(k, b') \<in> set m'" and x: "x \<in> set b'"
      from ix [OF cm]
      show "col_at ?s' (raw_of x) (KStr c') = k \<and> Raw (raw_of x) \<in> snd ` set (records ?t')"
      proof (elim disjE conjE)
        assume c: "c' = c" "m' = im"
        from build_index_where [OF raws b kb [unfolded c] x]
        have xr: "x \<in> set (map snd (records t))" and xc: "col_at s (raw_of x) (KStr c) = k" by auto
        from xr raws obtain a where "x = Raw a" by blast
        with xr have "Raw (raw_of x) \<in> snd ` set (records t)" by simp
        with xc show ?thesis unfolding c col' by simp
      next
        assume "(c', m') \<in> set (indices t)"
        from mem [OF this kb x] show ?thesis unfolding col' by simp
      qed
    qed
  qed
qed

lemma createTable_exact:
  assumes "map_of (data s) tn = None"
  shows "index_exact (createTable tn cols s) tn"
proof -
  let ?s1 = "s\<lparr>data := AList.update tn \<lparr>records = [], indices = [], lastUID = None\<rparr> (data s)\<rparr>"
  have fold: "index_exact s0 tn \<Longrightarrow> index_exact (fold (addIndex tn) cs s0) tn" for cs s0
    by (induction cs arbitrary: s0) (simp_all add: addIndex_exact)
  have "index_ok ?s1 tn" by (simp add: index_ok_def update_conv')
  then have "index_exact ?s1 tn" by (simp add: index_exact_def update_conv')
  then have "index_exact (fold (addIndex tn) cols ?s1) tn" by (rule fold)
  then show ?thesis using assms by (simp add: createTable_def)
qed



























text \<open>
  What the theorem leaves out. \<^verbatim>\<open>removeRecord\<close> deletes from the bucket the reference it is
  given, and the bucket holds the handle: called with the object itself, or with what
  \<^verbatim>\<open>getRecordsByColumn\<close> returns through the index (a proxy of the handle), it removes the
  record from the table and leaves the handle in the bucket, and the indexed lookup goes on
  returning the removed record. And a record whose value in the column is \<^verbatim>\<open>NaN\<close> is found
  through the index, where \<^verbatim>\<open>Map.get\<close> compares keys by SameValueZero, and not by the scan,
  where \<^verbatim>\<open>===\<close> does not hold of \<^verbatim>\<open>NaN\<close>.
\<close>

lemma removal_leaves_stale_entry:
  "fst (getRecordsByColumn ''users'' ''name'' (VStr ''John'') False john_removed) = [john_handle]
   \<and> fst (getRecordsByColumn ''users'' ''name'' (VStr ''John'') False
            (removeIndex ''users'' ''name'' john_removed)) = []
   \<and> fst (getRecordsByColumn ''users'' ''name'' (VStr ''John'') False johns_removed) = [john_handle]
   \<and> fst (getRecordsByColumn ''users'' ''name'' (VStr ''John'') False
            (removeIndex ''users'' ''name'' johns_removed)) = []"
  by code_simp

lemma lookup_of_NaN_differs:
  "fst (getRecordsByColumn ''users'' ''age'' VNaN False nan_aged) = [Prox ''users'' (Raw 0) None (Raw 0)]
   \<and> fst (getRecordsByColumn ''users'' ''age'' VNaN False (removeIndex ''users'' ''age'' nan_aged)) = []"
  by code_simp

section \<open>The round trip of the codec\<close>

text \<open>
  \<^verbatim>\<open>Decode\<close> after \<^verbatim>\<open>Encode\<close>, on a value graph that may share nodes and contain cycles.
  \<^verbatim>\<open>Encode\<close> numbers the objects in the order it first meets them and writes a reference for
  every later meeting; \<^verbatim>\<open>Decode\<close> creates the objects in the same order, so that the object
  numbered \<open>i\<close> becomes the \<open>i\<close>-th new cell of the decoder's heap. The proof follows the
  recursion of \<^verbatim>\<open>Encode\<close>: by induction on the fuel for one value, and for each amount of
  fuel by induction on the list of children.
\<close>

subsection \<open>Decimal strings\<close>

lemma digit_val_char: "d < 10 \<Longrightarrow> digit_val (digit_char d) = d"
  by (simp add: digit_val_def digit_char_def)

lemma is_digit_char: "d < 10 \<Longrightarrow> is_digit (digit_char d)"
  by (simp add: is_digit_def digit_char_def)

lemma show_nat_digits: "list_all is_digit (show_nat n)"
proof (induction n rule: show_nat.induct)
  case (1 n)
  then show ?case by (subst show_nat.simps) (simp add: is_digit_char)
qed

lemma show_nat_nonempty: "show_nat n \<noteq> []"
  by (subst show_nat.simps) simp

lemma parse_nat_snoc: "parse_nat (xs @ [c]) = parse_nat xs * 10 + digit_val c"
  by (simp add: parse_nat_def)

lemma parse_show_nat: "parse_nat (show_nat n) = n"
proof (induction n rule: show_nat.induct)
  case (1 n)
  show ?case
  proof (cases "n < 10")
    case True
    then show ?thesis by (subst show_nat.simps) (simp add: parse_nat_def digit_val_char)
  next
    case False
    with 1 have "parse_nat (show_nat (n div 10)) = n div 10" by simp
    with False show ?thesis
      by (subst show_nat.simps) (simp add: parse_nat_snoc digit_val_char)
  qed
qed

lemma is_digit_not_sign: "is_digit c \<Longrightarrow> c \<noteq> CHR ''-'' \<and> c \<noteq> CHR ''+''"
  by (auto simp: is_digit_def)

lemma parse_show_int: "parse_int (show_int i) = Some i"
proof (cases "i < 0")
  case True
  then show ?thesis
    by (simp add: show_int_def parse_int_def show_nat_digits show_nat_nonempty parse_show_nat)
next
  case False
  obtain c cs where s: "show_nat (nat i) = c # cs"
    using show_nat_nonempty [of "nat i"] by (cases "show_nat (nat i)") auto
  from show_nat_digits [of "nat i"] have d: "list_all is_digit (c # cs)" by (simp add: s)
  then have "is_digit c" by simp
  from is_digit_not_sign [OF this] d False parse_show_nat [of "nat i"] show ?thesis
    by (simp add: show_int_def parse_int_def s)
qed


subsection \<open>The table of visited objects\<close>

lemma enc_inv_Nil: "enc_inv h []"
  by (simp add: enc_inv_def)

lemma enc_inv_snoc:
  assumes "enc_inv h refs" "map_of refs (Raw a) = None" "a < length h"
  shows "enc_inv h (refs @ [(Raw a, length refs)])"
proof -
  from assms(2) have "Raw a \<notin> fst ` set refs" by (simp add: map_of_eq_None_iff)
  with assms(1,3) show ?thesis by (auto simp: enc_inv_def)
qed

lemma enc_inv_bound:
  assumes "enc_inv h refs"
  shows "length refs \<le> length h"
proof -
  define ks where "ks = map fst refs"
  from assms have d: "distinct ks"
    and raw: "\<forall>r \<in> set ks. \<exists>a. r = Raw a \<and> a < length h"
    by (auto simp: enc_inv_def ks_def split: ref.splits)
  have "inj_on raw_of (set ks)"
  proof (rule inj_onI)
    fix x y assume "x \<in> set ks" "y \<in> set ks" "raw_of x = raw_of y"
    with raw show "x = y" by (metis raw_of.simps(1))
  qed
  with d have "distinct (map raw_of ks)" by (simp add: distinct_map)
  then have "card (set (map raw_of ks)) = length ks" by (simp add: distinct_card del: set_map)
  moreover have "set (map raw_of ks) \<subseteq> {..<length h}" using raw by auto
  then have "card (set (map raw_of ks)) \<le> card {..<length h}" by (intro card_mono) simp_all
  ultimately show ?thesis by (simp add: ks_def)
qed

lemma enc_inv_ids:
  assumes "enc_inv h R" "map_of R r1 = Some i" "map_of R r2 = Some i"
  shows "r1 = r2"
proof -
  from assms(1) have "distinct (map snd R)" by (simp add: enc_inv_def)
  then have inj: "inj_on snd (set R)" by (simp add: distinct_map)
  from assms(2,3) have "(r1, i) \<in> set R" "(r2, i) \<in> set R" by (auto dest: map_of_SomeD)
  with inj have "(r1, i) = (r2, i)" by (intro inj_onD [of snd "set R"]) simp_all
  then show ?thesis by simp
qed

lemma map_of_new: "map_of refs r = None \<Longrightarrow> map_of (refs @ (r, i) # later) r = Some i"
  by (simp add: map_add_def)

lemma rename_inj:
  assumes "enc_inv h R"
    and "\<forall>r. x = VObj r \<longrightarrow> map_of R r \<noteq> None" "\<forall>r. y = VObj r \<longrightarrow> map_of R r \<noteq> None"
    and "rename R b x = rename R b y"
  shows "x = y"
proof (cases x)
  case x: (VObj r1)
  with assms(2) obtain i1 where i1: "map_of R r1 = Some i1" by auto
  show ?thesis
  proof (cases y)
    case y: (VObj r2)
    with assms(3) obtain i2 where i2: "map_of R r2 = Some i2" by auto
    from assms(4) have "i1 = i2" by (simp add: x y i1 i2)
    with enc_inv_ids [OF assms(1) i1] i2 show ?thesis by (simp add: x y)
  qed (use assms(4) in \<open>simp_all add: x i1\<close>)
next
  case VUndefined
  with assms(3,4) show ?thesis by (cases y) (auto split: option.splits)
next
  case VNull
  with assms(3,4) show ?thesis by (cases y) (auto split: option.splits)
next
  case (VBool b)
  with assms(3,4) show ?thesis by (cases y) (auto split: option.splits)
next
  case (VNum n)
  with assms(3,4) show ?thesis by (cases y) (auto split: option.splits)
next
  case VNaN
  with assms(3,4) show ?thesis by (cases y) (auto split: option.splits)
next
  case (VStr str)
  with assms(3,4) show ?thesis by (cases y) (auto split: option.splits)
next
  case (VBigInt n)
  with assms(3,4) show ?thesis by (cases y) (auto split: option.splits)
next
  case (VSym n)
  with assms(3,4) show ?thesis by (cases y) (auto split: option.splits)
next
  case (VFun n)
  with assms(3,4) show ?thesis by (cases y) (auto split: option.splits)
qed

subsection \<open>One step of the decoder\<close>

lemma list_update_keep: "xs ! i = x \<Longrightarrow> xs = xs[i := x]"
  by (metis list_update_id)

lemma dheap_store_item:
  "out < length (dheap st) \<Longrightarrow> dheap (store_item out v st) = (dheap st)[out := push (dheap st ! out) v]"
  by (cases "dheap st ! out") (auto simp: store_item_def heap_at_def intro: list_update_keep)

lemma drefs_store_item [simp]: "drefs (store_item out v st) = drefs st"
  by (simp add: store_item_def split: hobj.splits)

lemma dheap_store_entry:
  "out < length (dheap st) \<Longrightarrow> dheap (store_entry out k v st) = (dheap st)[out := put (dheap st ! out) (k, v)]"
  by (cases "dheap st ! out") (auto simp: store_entry_def heap_at_def intro: list_update_keep)

lemma drefs_store_entry [simp]: "drefs (store_entry out k v st) = drefs st"
  by (simp add: store_entry_def split: hobj.splits)

lemma dec_match_store_item:
  "dec_match base k st \<Longrightarrow> out < length (dheap st) \<Longrightarrow> dec_match base k (store_item out v st)"
  by (simp add: dec_match_def dheap_store_item)

lemma dec_match_store_entry:
  "dec_match base k st \<Longrightarrow> out < length (dheap st) \<Longrightarrow> dec_match base k (store_entry out key v st)"
  by (simp add: dec_match_def dheap_store_entry)

lemma alloc_match:
  assumes "dec_match base k ds"
  shows "\<exists>ds'. alloc ob k ds = (base + k, ds') \<and> dheap ds' = dheap ds @ [ob] \<and> dec_match base (Suc k) ds'"
  using assms by (auto simp: alloc_def dec_match_def update_conv' less_Suc_eq)

lemma foldl_push_array: "foldl push (HArray acc) vs = HArray (acc @ vs)"
  by (induction vs arbitrary: acc) simp_all

lemma foldl_push_set:
  "distinct vs \<Longrightarrow> set vs \<inter> set acc = {} \<Longrightarrow> foldl push (HSet acc) vs = HSet (acc @ vs)"
  by (induction vs arbitrary: acc) (auto simp: set_add_def)

lemma update_fresh: "k \<notin> fst ` set m \<Longrightarrow> AList.update k v m = m @ [(k, v)]"
  by (induction m) auto

lemma foldl_put_map:
  "distinct (map fst es) \<Longrightarrow> fst ` set es \<inter> fst ` set acc = {} \<Longrightarrow>
     foldl put (HMap acc) es = HMap (acc @ es)"
proof (induction es arbitrary: acc)
  case Nil
  then show ?case by simp
next
  case (Cons e es)
  obtain k v where e: "e = (k, v)" by (cases e)
  from Cons.prems have k: "k \<notin> fst ` set acc" by (auto simp: e)
  from Cons.prems have "distinct (map fst es)" "fst ` set es \<inter> fst ` set (acc @ [(k, v)]) = {}"
    by (auto simp: e)
  from Cons.IH [OF this] show ?case by (simp add: e update_fresh [OF k])
qed

lemma foldl_put_object:
  assumes "\<forall>(k, v) \<in> set ps. case k of KStr str \<Rightarrow> str \<noteq> ''__proto__'' | KSym y \<Rightarrow> False"
    and "distinct (map fst ps)" "fst ` set ps \<inter> fst ` set acc = {}"
  shows "foldl put (HObject acc) (map (\<lambda>(k, v). (rename R b k, rename R b v)) (string_entries ps))
           = HObject (acc @ map (\<lambda>(k, v). (k, rename R b v)) ps)"
  using assms
proof (induction ps arbitrary: acc)
  case Nil
  then show ?case by simp
next
  case (Cons e ps)
  obtain k v where e: "e = (k, v)" by (cases e)
  from Cons.prems(1) obtain str where k: "k = KStr str" and str: "str \<noteq> ''__proto__''"
    by (cases k) (auto simp: e)
  from Cons.prems have fresh: "KStr str \<notin> fst ` set acc" by (auto simp: e k)
  from Cons.prems have "\<forall>(k, v) \<in> set ps. case k of KStr str \<Rightarrow> str \<noteq> ''__proto__'' | KSym y \<Rightarrow> False"
    "distinct (map fst ps)" "fst ` set ps \<inter> fst ` set (acc @ [(KStr str, rename R b v)]) = {}"
    by (auto simp: e k)
  from Cons.IH [OF this] show ?case by (simp add: e k str update_fresh [OF fresh])
qed

lemma no_symbol_entries:
  "\<forall>(k, v) \<in> set ps. case k of KStr str \<Rightarrow> True | KSym y \<Rightarrow> False \<Longrightarrow> symbol_entries ps = []"
  by (induction ps rule: symbol_entries.induct) auto

lemma string_entries_value:
  "\<forall>(k, v) \<in> set ps. case k of KStr str \<Rightarrow> True | KSym y \<Rightarrow> False \<Longrightarrow> x \<in> snd ` set ps \<Longrightarrow>
     \<exists>k. (k, x) \<in> set (string_entries ps)"
  by (induction ps rule: string_entries.induct) auto

lemma string_entries_plain:
  "\<forall>(k, v) \<in> set ps. (case k of KStr str \<Rightarrow> True | KSym y \<Rightarrow> False) \<and> plain_val h v \<Longrightarrow>
     \<forall>(k, v) \<in> set (string_entries ps). plain_val h k \<and> plain_val h v"
  by (induction ps rule: string_entries.induct) auto

subsection \<open>One step of the encoder\<close>

lemma Encode_seen:
  "map_of refs r = Some i \<Longrightarrow>
     Encode (Suc n) h [] (VObj r) (refs, syms) = Some (EncodedReference i, (refs, syms))"
  by simp

lemma Encode_array:
  "map_of refs r = None \<Longrightarrow> heap_at h (raw_of r) = HArray xs \<Longrightarrow>
     Encode (Suc n) h [] (VObj r) (refs, syms) =
       (case Encode_each n h [] xs (refs @ [(r, length refs)], syms) of
          None \<Rightarrow> None
        | Some (out, st2) \<Rightarrow> Some (EncodedArray out (length refs), st2))"
  by (simp add: Let_def)

lemma Encode_set:
  "map_of refs r = None \<Longrightarrow> heap_at h (raw_of r) = HSet xs \<Longrightarrow>
     Encode (Suc n) h [] (VObj r) (refs, syms) =
       (case Encode_each n h [] xs (refs @ [(r, length refs)], syms) of
          None \<Rightarrow> None
        | Some (out, st2) \<Rightarrow> Some (EncodedSet out (length refs), st2))"
  by (simp add: Let_def)

lemma Encode_map:
  "map_of refs r = None \<Longrightarrow> heap_at h (raw_of r) = HMap kvs \<Longrightarrow>
     Encode (Suc n) h [] (VObj r) (refs, syms) =
       (case Encode_entries n h [] kvs (refs @ [(r, length refs)], syms) of
          None \<Rightarrow> None
        | Some (out, st2) \<Rightarrow> Some (EncodedMap out (length refs), st2))"
  by (simp add: Let_def)

lemma Encode_object:
  "map_of refs r = None \<Longrightarrow> heap_at h (raw_of r) = HObject ps \<Longrightarrow>
     Encode (Suc n) h [] (VObj r) (refs, syms) =
       (case Encode_entries n h [] (string_entries ps @ symbol_entries ps) (refs @ [(r, length refs)], syms) of
          None \<Rightarrow> None
        | Some (out, st2) \<Rightarrow> Some (EncodedObject out (length refs), st2))"
  by (simp add: Let_def)

lemma Encode_date:
  "map_of refs r = None \<Longrightarrow> heap_at h (raw_of r) = HDate d \<Longrightarrow>
     Encode (Suc n) h [] (VObj r) (refs, syms) =
       Some (EncodedDate d (length refs), (refs @ [(r, length refs)], syms))"
  by (simp add: Let_def)


subsection \<open>Lists of children\<close>

lemma known_prefix: "known refs v \<Longrightarrow> known (refs @ later) v"
  by (auto simp: known_def map_add_def split: val.splits option.splits)

lemma closed_Nil [simp]: "closed h refs []"
  by (simp add: closed_def)

lemma closed_append [simp]: "closed h refs (a @ b) \<longleftrightarrow> closed h refs a \<and> closed h refs b"
  by (auto simp: closed_def)

lemma closed_prefix: "closed h refs new \<Longrightarrow> closed h (refs @ later) new"
  unfolding closed_def by (fast intro: known_prefix)

lemma closed_Cons:
  "closed h refs ((r, i) # new) \<longleftrightarrow>
     (\<forall>x \<in> set (children (heap_at h (raw_of r))). known refs x) \<and> closed h refs new"
  by (simp add: closed_def)

lemma each_ok:
  assumes one: "\<And>v refs. plain_val h v \<Longrightarrow> enc_inv h refs \<Longrightarrow> length h < n + length refs \<Longrightarrow>
        \<exists>w new. Encode n h [] v (refs, syms) = Some (w, (refs @ new, syms)) \<and> enc_inv h (refs @ new) \<and>
          known (refs @ new) v \<and> closed h (refs @ new) new \<and> decodes h refs new w v"
  shows "\<forall>x \<in> set xs. plain_val h x \<Longrightarrow> enc_inv h refs \<Longrightarrow> length h < n + length refs \<Longrightarrow>
        \<exists>ws new. Encode_each n h [] xs (refs, syms) = Some (ws, (refs @ new, syms)) \<and> enc_inv h (refs @ new) \<and>
          (\<forall>x \<in> set xs. known (refs @ new) x) \<and> closed h (refs @ new) new \<and>
          decodes_each h refs new ws xs"
proof (induction xs arbitrary: refs)
  case Nil
  have "decodes_each h refs [] [] []" by (simp add: decodes_each_def)
  with Nil show ?case by (intro exI [of _ "[]"]) simp
next
  case (Cons x xs)
  from Cons.prems have px: "plain_val h x" and pxs: "\<forall>x \<in> set xs. plain_val h x" by simp_all
  from one [OF px Cons.prems(2,3)] obtain w new1 where
    e1: "Encode n h [] x (refs, syms) = Some (w, (refs @ new1, syms))"
    and inv1: "enc_inv h (refs @ new1)" and k1: "known (refs @ new1) x"
    and c1: "closed h (refs @ new1) new1" and d1: "decodes h refs new1 w x" by blast
  from Cons.prems(3) have fuel1: "length h < n + length (refs @ new1)" by simp
  from Cons.IH [OF pxs inv1 fuel1] obtain ws new2 where
    e2: "Encode_each n h [] xs (refs @ new1, syms) = Some (ws, ((refs @ new1) @ new2, syms))"
    and inv2: "enc_inv h ((refs @ new1) @ new2)" and k2: "\<forall>x \<in> set xs. known ((refs @ new1) @ new2) x"
    and c2: "closed h ((refs @ new1) @ new2) new2"
    and d2: "decodes_each h (refs @ new1) new2 ws xs" by blast
  have "decodes_each h refs (new1 @ new2) (w # ws) (x # xs)"
    unfolding decodes_each_def
  proof (intro allI impI)
    fix later ds base out
    define R where "R = refs @ (new1 @ new2) @ later"
    assume "enc_inv h (refs @ (new1 @ new2) @ later)"
      and m: "dec_match base (length refs) ds" and o: "out < length (dheap ds)"
    then have R: "enc_inv h R" by (simp add: R_def)
    have R1: "refs @ new1 @ (new2 @ later) = R" and R2: "(refs @ new1) @ new2 @ later = R"
      by (simp_all add: R_def)
    from d1 [unfolded decodes_def, rule_format, where later = "new2 @ later" and ds = ds and base = base,
      unfolded R1, OF R m]
    obtain ds1 where D1: "Decode w ds = (Inr (rename R base x), ds1)"
      and m1: "dec_match base (length refs + length new1) ds1"
      and h1: "dheap ds1 = dheap ds @ map (cell h R base) new1" by blast
    define ds2 where "ds2 = store_item out (rename R base x) ds1"
    from o h1 have o1: "out < length (dheap ds1)" by simp
    from dec_match_store_item [OF m1 o1] have m2: "dec_match base (length (refs @ new1)) ds2"
      by (simp add: ds2_def)
    have h2: "dheap ds2 = (dheap ds)[out := push (dheap ds ! out) (rename R base x)] @ map (cell h R base) new1"
      using o by (simp add: ds2_def dheap_store_item [OF o1] h1 list_update_append nth_append)
    from o h2 have o2: "out < length (dheap ds2)" by simp
    from d2 [unfolded decodes_each_def, rule_format, where later = later and ds = ds2 and base = base
      and out = out, unfolded R2, OF R m2 o2]
    obtain ds' where D2: "Decode_each out ws ds2 = (Inr (), ds')"
      and m': "dec_match base (length (refs @ new1) + length new2) ds'"
      and h': "dheap ds' = (dheap ds2)[out := foldl push (dheap ds2 ! out) (map (rename R base) xs)]
                            @ map (cell h R base) new2" by blast
    have at: "dheap ds2 ! out = push (dheap ds ! out) (rename R base x)"
      using o by (simp add: h2 nth_append)
    have "dheap ds' = (dheap ds)[out := foldl push (dheap ds ! out) (map (rename R base) (x # xs))]
                        @ map (cell h R base) (new1 @ new2)"
      unfolding h' at unfolding h2 using o by (simp add: list_update_append)
    moreover have "Decode_each out (w # ws) ds = (Inr (), ds')"
      using D2 by (simp add: D1 ds2_def)
    moreover have "dec_match base (length refs + length (new1 @ new2)) ds'" using m' by (simp add: add.assoc)
    ultimately have "\<exists>ds'. Decode_each out (w # ws) ds = (Inr (), ds') \<and>
               dec_match base (length refs + length (new1 @ new2)) ds' \<and>
               dheap ds' = (dheap ds)[out := foldl push (dheap ds ! out) (map (rename R base) (x # xs))]
                           @ map (cell h R base) (new1 @ new2)" by blast
    then show "\<exists>ds'. Decode_each out (w # ws) ds = (Inr (), ds') \<and>
               dec_match base (length refs + length (new1 @ new2)) ds' \<and>
               dheap ds' = (dheap ds)[out := foldl push (dheap ds ! out)
                    (map (rename (refs @ (new1 @ new2) @ later) base) (x # xs))]
                           @ map (cell h (refs @ (new1 @ new2) @ later) base) (new1 @ new2)"
      unfolding R_def .
  qed
  moreover have "Encode_each n h [] (x # xs) (refs, syms) = Some (w # ws, (refs @ new1 @ new2, syms))"
    using e1 e2 by simp
  moreover have "enc_inv h (refs @ new1 @ new2)" using inv2 by simp
  moreover have "\<forall>y \<in> set (x # xs). known (refs @ new1 @ new2) y"
    using k2 known_prefix [OF k1, of new2] by simp
  moreover have "closed h (refs @ new1 @ new2) (new1 @ new2)"
    using c2 closed_prefix [OF c1, of new2] by simp
  ultimately show ?case by blast
qed


lemma entries_ok:
  assumes one: "\<And>v refs. plain_val h v \<Longrightarrow> enc_inv h refs \<Longrightarrow> length h < n + length refs \<Longrightarrow>
        \<exists>w new. Encode n h [] v (refs, syms) = Some (w, (refs @ new, syms)) \<and> enc_inv h (refs @ new) \<and>
          known (refs @ new) v \<and> closed h (refs @ new) new \<and> decodes h refs new w v"
  shows "\<forall>(k, v) \<in> set kvs. plain_val h k \<and> plain_val h v \<Longrightarrow> enc_inv h refs \<Longrightarrow>
        length h < n + length refs \<Longrightarrow>
        \<exists>ws new. Encode_entries n h [] kvs (refs, syms) = Some (ws, (refs @ new, syms)) \<and>
          enc_inv h (refs @ new) \<and>
          (\<forall>(k, v) \<in> set kvs. known (refs @ new) k \<and> known (refs @ new) v) \<and>
          closed h (refs @ new) new \<and> decodes_entries h refs new ws kvs"
proof (induction kvs arbitrary: refs)
  case Nil
  have "decodes_entries h refs [] [] []" by (simp add: decodes_entries_def)
  with Nil show ?case by (intro exI [of _ "[]"]) simp
next
  case (Cons kv kvs)
  obtain k v where kv: "kv = (k, v)" by (cases kv)
  from Cons.prems have pk: "plain_val h k" and pv: "plain_val h v"
    and pkvs: "\<forall>(k, v) \<in> set kvs. plain_val h k \<and> plain_val h v" by (simp_all add: kv)
  from one [OF pk Cons.prems(2,3)] obtain wk new1 where
    e1: "Encode n h [] k (refs, syms) = Some (wk, (refs @ new1, syms))"
    and inv1: "enc_inv h (refs @ new1)" and k1: "known (refs @ new1) k"
    and c1: "closed h (refs @ new1) new1" and d1: "decodes h refs new1 wk k" by blast
  from Cons.prems(3) have fuel1: "length h < n + length (refs @ new1)" by simp
  from one [OF pv inv1 fuel1] obtain wv new2 where
    e2: "Encode n h [] v (refs @ new1, syms) = Some (wv, ((refs @ new1) @ new2, syms))"
    and inv2: "enc_inv h ((refs @ new1) @ new2)" and k2: "known ((refs @ new1) @ new2) v"
    and c2: "closed h ((refs @ new1) @ new2) new2"
    and d2: "decodes h (refs @ new1) new2 wv v" by blast
  from Cons.prems(3) have fuel2: "length h < n + length ((refs @ new1) @ new2)" by simp
  from Cons.IH [OF pkvs inv2 fuel2] obtain ws new3 where
    e3: "Encode_entries n h [] kvs ((refs @ new1) @ new2, syms) = Some (ws, (((refs @ new1) @ new2) @ new3, syms))"
    and inv3: "enc_inv h (((refs @ new1) @ new2) @ new3)"
    and k3: "\<forall>(k, v) \<in> set kvs. known (((refs @ new1) @ new2) @ new3) k \<and> known (((refs @ new1) @ new2) @ new3) v"
    and c3: "closed h (((refs @ new1) @ new2) @ new3) new3"
    and d3: "decodes_entries h ((refs @ new1) @ new2) new3 ws kvs" by blast
  have "decodes_entries h refs (new1 @ new2 @ new3) ((wk, wv) # ws) ((k, v) # kvs)"
    unfolding decodes_entries_def
  proof (intro allI impI)
    fix later ds base out
    define R where "R = refs @ (new1 @ new2 @ new3) @ later"
    assume "enc_inv h (refs @ (new1 @ new2 @ new3) @ later)"
      and m: "dec_match base (length refs) ds" and o: "out < length (dheap ds)"
    then have R: "enc_inv h R" by (simp add: R_def)
    have R1: "refs @ new1 @ (new2 @ new3 @ later) = R"
      and R2: "(refs @ new1) @ new2 @ (new3 @ later) = R"
      and R3: "((refs @ new1) @ new2) @ new3 @ later = R"
      by (simp_all add: R_def)
    from d1 [unfolded decodes_def, rule_format, where later = "new2 @ new3 @ later" and ds = ds
      and base = base, unfolded R1, OF R m]
    obtain ds1 where D1: "Decode wk ds = (Inr (rename R base k), ds1)"
      and m1: "dec_match base (length refs + length new1) ds1"
      and h1: "dheap ds1 = dheap ds @ map (cell h R base) new1" by blast
    from m1 have m1': "dec_match base (length (refs @ new1)) ds1" by simp
    from d2 [unfolded decodes_def, rule_format, where later = "new3 @ later" and ds = ds1
      and base = base, unfolded R2, OF R m1']
    obtain ds2 where D2: "Decode wv ds1 = (Inr (rename R base v), ds2)"
      and m2: "dec_match base (length (refs @ new1) + length new2) ds2"
      and h2: "dheap ds2 = dheap ds1 @ map (cell h R base) new2" by blast
    define ds3 where "ds3 = store_entry out (rename R base k) (rename R base v) ds2"
    from o h1 h2 have o2: "out < length (dheap ds2)" by simp
    from m2 have "dec_match base (length ((refs @ new1) @ new2)) ds2" by (simp add: add.assoc)
    from dec_match_store_entry [OF this o2]
    have m3: "dec_match base (length ((refs @ new1) @ new2)) ds3" by (simp add: ds3_def)
    have h3: "dheap ds3 = (dheap ds)[out := put (dheap ds ! out) (rename R base k, rename R base v)]
                 @ map (cell h R base) (new1 @ new2)"
      using o by (simp add: ds3_def dheap_store_entry [OF o2] h1 h2 list_update_append nth_append)
    from o h3 have o3: "out < length (dheap ds3)" by simp
    from d3 [unfolded decodes_entries_def, rule_format, where later = later and ds = ds3 and base = base
      and out = out, unfolded R3, OF R m3 o3]
    obtain ds' where D3: "Decode_entries out ws ds3 = (Inr (), ds')"
      and m': "dec_match base (length ((refs @ new1) @ new2) + length new3) ds'"
      and h': "dheap ds' = (dheap ds3)[out := foldl put (dheap ds3 ! out)
                   (map (\<lambda>(k, v). (rename R base k, rename R base v)) kvs)]
                            @ map (cell h R base) new3" by blast
    have at: "dheap ds3 ! out = put (dheap ds ! out) (rename R base k, rename R base v)"
      using o by (simp add: h3 nth_append)
    have "dheap ds' = (dheap ds)[out := foldl put (dheap ds ! out)
                   (map (\<lambda>(k, v). (rename R base k, rename R base v)) ((k, v) # kvs))]
                        @ map (cell h R base) (new1 @ new2 @ new3)"
      unfolding h' at unfolding h3 using o by (simp add: list_update_append)
    moreover have "Decode_entries out ((wk, wv) # ws) ds = (Inr (), ds')"
      using D3 by (simp add: D1 D2 ds3_def)
    moreover have "dec_match base (length refs + length (new1 @ new2 @ new3)) ds'"
      using m' by (simp add: add.assoc)
    ultimately have "\<exists>ds'. Decode_entries out ((wk, wv) # ws) ds = (Inr (), ds') \<and>
               dec_match base (length refs + length (new1 @ new2 @ new3)) ds' \<and>
               dheap ds' = (dheap ds)[out := foldl put (dheap ds ! out)
                   (map (\<lambda>(k, v). (rename R base k, rename R base v)) ((k, v) # kvs))]
                           @ map (cell h R base) (new1 @ new2 @ new3)" by blast
    then show "\<exists>ds'. Decode_entries out ((wk, wv) # ws) ds = (Inr (), ds') \<and>
               dec_match base (length refs + length (new1 @ new2 @ new3)) ds' \<and>
               dheap ds' = (dheap ds)[out := foldl put (dheap ds ! out)
                   (map (\<lambda>(k, v). (rename (refs @ (new1 @ new2 @ new3) @ later) base k,
                                     rename (refs @ (new1 @ new2 @ new3) @ later) base v)) ((k, v) # kvs))]
                           @ map (cell h (refs @ (new1 @ new2 @ new3) @ later) base) (new1 @ new2 @ new3)"
      unfolding R_def .
  qed
  moreover have "Encode_entries n h [] (kv # kvs) (refs, syms) = Some ((wk, wv) # ws, (refs @ new1 @ new2 @ new3, syms))"
    using e1 e2 e3 by (simp add: kv)
  moreover have "enc_inv h (refs @ new1 @ new2 @ new3)" using inv3 by simp
  moreover have "\<forall>(k, v) \<in> set (kv # kvs). known (refs @ new1 @ new2 @ new3) k \<and> known (refs @ new1 @ new2 @ new3) v"
    using k3 known_prefix [OF k1, of "new2 @ new3"] known_prefix [OF k2, of new3] by (simp add: kv)
  moreover have "closed h (refs @ new1 @ new2 @ new3) (new1 @ new2 @ new3)"
    using c3 closed_prefix [OF c1, of "new2 @ new3"] closed_prefix [OF c2, of new3] by simp
  ultimately show ?case unfolding kv by blast
qed


subsection \<open>A composite and its children\<close>

lemma composite_each:
  assumes none: "map_of refs r = None"
    and d: "decodes_each h (refs @ [(r, length refs)]) new1 ws xs"
    and dec: "\<And>ds. Decode w ds =
        (case alloc init (length refs) ds of
           (out, st1) \<Rightarrow>
             (case Decode_each out ws st1 of
                (Inl e, st2) \<Rightarrow> (Inl e, st2)
              | (Inr u, st2) \<Rightarrow> (Inr (VObj (Raw out)), st2)))"
    and fill: "\<And>later base. enc_inv h ((refs @ [(r, length refs)]) @ new1 @ later) \<Longrightarrow>
        foldl push init (map (rename ((refs @ [(r, length refs)]) @ new1 @ later) base) xs)
          = rename_obj ((refs @ [(r, length refs)]) @ new1 @ later) base (heap_at h (raw_of r))"
  shows "decodes h refs ((r, length refs) # new1) w (VObj r)"
  unfolding decodes_def
proof (intro allI impI)
  fix later ds base
  define R where "R = refs @ ((r, length refs) # new1) @ later"
  define out where "out = base + length refs"
  assume "enc_inv h (refs @ ((r, length refs) # new1) @ later)" and m: "dec_match base (length refs) ds"
  then have R: "enc_inv h R" by (simp add: R_def)
  have R1: "(refs @ [(r, length refs)]) @ new1 @ later = R" by (simp add: R_def)
  from alloc_match [OF m, of init] obtain ds1 where
    a: "alloc init (length refs) ds = (out, ds1)" and h1: "dheap ds1 = dheap ds @ [init]"
    and m1: "dec_match base (Suc (length refs)) ds1" unfolding out_def by blast
  from m have len: "length (dheap ds) = out" by (simp add: dec_match_def out_def)
  then have o1: "out < length (dheap ds1)" by (simp add: h1)
  from m1 have m1': "dec_match base (length (refs @ [(r, length refs)])) ds1" by simp
  from d [unfolded decodes_each_def, rule_format, where later = later and ds = ds1 and base = base
      and out = out, unfolded R1, OF R m1' o1]
  obtain ds' where D: "Decode_each out ws ds1 = (Inr (), ds')"
    and m': "dec_match base (length (refs @ [(r, length refs)]) + length new1) ds'"
    and h': "dheap ds' = (dheap ds1)[out := foldl push (dheap ds1 ! out) (map (rename R base) xs)]
                            @ map (cell h R base) new1" by blast
  have at: "dheap ds1 ! out = init" using len by (simp add: h1 nth_append)
  have c: "cell h R base (r, length refs) = foldl push init (map (rename R base) xs)"
    using fill [of later base, unfolded R1, OF R] by (simp add: cell_def)
  have "dheap ds' = (dheap ds1)[out := cell h R base (r, length refs)] @ map (cell h R base) new1"
    unfolding h' at c ..
  then have "dheap ds' = dheap ds @ map (cell h R base) ((r, length refs) # new1)"
    using len by (simp add: h1 list_update_append)
  moreover have "Decode w ds = (Inr (VObj (Raw out)), ds')" by (simp add: dec a D)
  moreover have "rename R base (VObj r) = VObj (Raw out)"
    using map_of_new [OF none, of "length refs" "new1 @ later"] by (simp add: R_def out_def)
  moreover have "dec_match base (length refs + length ((r, length refs) # new1)) ds'" using m' by simp
  ultimately have "\<exists>ds'. Decode w ds = (Inr (rename R base (VObj r)), ds') \<and>
               dec_match base (length refs + length ((r, length refs) # new1)) ds' \<and>
               dheap ds' = dheap ds @ map (cell h R base) ((r, length refs) # new1)" by simp
  then show "\<exists>ds'. Decode w ds = (Inr (rename (refs @ ((r, length refs) # new1) @ later) base (VObj r)), ds') \<and>
               dec_match base (length refs + length ((r, length refs) # new1)) ds' \<and>
               dheap ds' = dheap ds @ map (cell h (refs @ ((r, length refs) # new1) @ later) base)
                                       ((r, length refs) # new1)"
    unfolding R_def .
qed

lemma composite_entries:
  assumes none: "map_of refs r = None"
    and d: "decodes_entries h (refs @ [(r, length refs)]) new1 ws kvs"
    and dec: "\<And>ds. Decode w ds =
        (case alloc init (length refs) ds of
           (out, st1) \<Rightarrow>
             (case Decode_entries out ws st1 of
                (Inl e, st2) \<Rightarrow> (Inl e, st2)
              | (Inr u, st2) \<Rightarrow> (Inr (VObj (Raw out)), st2)))"
    and fill: "\<And>later base. enc_inv h ((refs @ [(r, length refs)]) @ new1 @ later) \<Longrightarrow>
        foldl put init (map (\<lambda>(k, v). (rename ((refs @ [(r, length refs)]) @ new1 @ later) base k,
                                        rename ((refs @ [(r, length refs)]) @ new1 @ later) base v)) kvs)
          = rename_obj ((refs @ [(r, length refs)]) @ new1 @ later) base (heap_at h (raw_of r))"
  shows "decodes h refs ((r, length refs) # new1) w (VObj r)"
  unfolding decodes_def
proof (intro allI impI)
  fix later ds base
  define R where "R = refs @ ((r, length refs) # new1) @ later"
  define out where "out = base + length refs"
  assume "enc_inv h (refs @ ((r, length refs) # new1) @ later)" and m: "dec_match base (length refs) ds"
  then have R: "enc_inv h R" by (simp add: R_def)
  have R1: "(refs @ [(r, length refs)]) @ new1 @ later = R" by (simp add: R_def)
  from alloc_match [OF m, of init] obtain ds1 where
    a: "alloc init (length refs) ds = (out, ds1)" and h1: "dheap ds1 = dheap ds @ [init]"
    and m1: "dec_match base (Suc (length refs)) ds1" unfolding out_def by blast
  from m have len: "length (dheap ds) = out" by (simp add: dec_match_def out_def)
  then have o1: "out < length (dheap ds1)" by (simp add: h1)
  from m1 have m1': "dec_match base (length (refs @ [(r, length refs)])) ds1" by simp
  from d [unfolded decodes_entries_def, rule_format, where later = later and ds = ds1 and base = base
      and out = out, unfolded R1, OF R m1' o1]
  obtain ds' where D: "Decode_entries out ws ds1 = (Inr (), ds')"
    and m': "dec_match base (length (refs @ [(r, length refs)]) + length new1) ds'"
    and h': "dheap ds' = (dheap ds1)[out := foldl put (dheap ds1 ! out)
                 (map (\<lambda>(k, v). (rename R base k, rename R base v)) kvs)]
                            @ map (cell h R base) new1" by blast
  have at: "dheap ds1 ! out = init" using len by (simp add: h1 nth_append)
  have c: "cell h R base (r, length refs) =
             foldl put init (map (\<lambda>(k, v). (rename R base k, rename R base v)) kvs)"
    using fill [of later base, unfolded R1, OF R] by (simp add: cell_def)
  have "dheap ds' = (dheap ds1)[out := cell h R base (r, length refs)] @ map (cell h R base) new1"
    unfolding h' at c ..
  then have "dheap ds' = dheap ds @ map (cell h R base) ((r, length refs) # new1)"
    using len by (simp add: h1 list_update_append)
  moreover have "Decode w ds = (Inr (VObj (Raw out)), ds')" by (simp add: dec a D)
  moreover have "rename R base (VObj r) = VObj (Raw out)"
    using map_of_new [OF none, of "length refs" "new1 @ later"] by (simp add: R_def out_def)
  moreover have "dec_match base (length refs + length ((r, length refs) # new1)) ds'" using m' by simp
  ultimately have "\<exists>ds'. Decode w ds = (Inr (rename R base (VObj r)), ds') \<and>
               dec_match base (length refs + length ((r, length refs) # new1)) ds' \<and>
               dheap ds' = dheap ds @ map (cell h R base) ((r, length refs) # new1)" by simp
  then show "\<exists>ds'. Decode w ds = (Inr (rename (refs @ ((r, length refs) # new1) @ later) base (VObj r)), ds') \<and>
               dec_match base (length refs + length ((r, length refs) # new1)) ds' \<and>
               dheap ds' = dheap ds @ map (cell h (refs @ ((r, length refs) # new1) @ later) base)
                                       ((r, length refs) # new1)"
    unfolding R_def .
qed


lemma rename_inj_on:
  assumes "enc_inv h R" "\<forall>x \<in> set xs. known R x"
  shows "inj_on (rename R b) (set xs)"
proof (rule inj_onI)
  fix x y assume x: "x \<in> set xs" and y: "y \<in> set xs" and eq: "rename R b x = rename R b y"
  from assms(2) x have kx: "\<forall>r. x = VObj r \<longrightarrow> map_of R r \<noteq> None" by (auto simp: known_def)
  from assms(2) y have ky: "\<forall>r. y = VObj r \<longrightarrow> map_of R r \<noteq> None" by (auto simp: known_def)
  from rename_inj [OF assms(1) kx ky eq] show "x = y" .
qed

subsection \<open>One value\<close>

lemma one_step:
  assumes heap: "plain_heap h"
    and each: "\<And>xs refs. \<forall>x \<in> set xs. plain_val h x \<Longrightarrow> enc_inv h refs \<Longrightarrow> length h < n + length refs \<Longrightarrow>
        \<exists>ws new. Encode_each n h [] xs (refs, syms) = Some (ws, (refs @ new, syms)) \<and> enc_inv h (refs @ new) \<and>
          (\<forall>x \<in> set xs. known (refs @ new) x) \<and> closed h (refs @ new) new \<and>
          decodes_each h refs new ws xs"
    and entries: "\<And>kvs refs. \<forall>(k, v) \<in> set kvs. plain_val h k \<and> plain_val h v \<Longrightarrow> enc_inv h refs \<Longrightarrow>
        length h < n + length refs \<Longrightarrow>
        \<exists>ws new. Encode_entries n h [] kvs (refs, syms) = Some (ws, (refs @ new, syms)) \<and>
          enc_inv h (refs @ new) \<and>
          (\<forall>(k, v) \<in> set kvs. known (refs @ new) k \<and> known (refs @ new) v) \<and>
          closed h (refs @ new) new \<and> decodes_entries h refs new ws kvs"
    and pv: "plain_val h v" and inv: "enc_inv h refs" and fuel: "length h < Suc n + length refs"
  shows "\<exists>w new. Encode (Suc n) h [] v (refs, syms) = Some (w, (refs @ new, syms)) \<and> enc_inv h (refs @ new) \<and>
          known (refs @ new) v \<and> closed h (refs @ new) new \<and> decodes h refs new w v"
proof (cases v)
  case VUndefined
  have "decodes h refs [] (EncodedValue ''undefined'' PUndefined) VUndefined" by (simp add: decodes_def)
  with inv show ?thesis unfolding VUndefined
    by (intro exI [of _ "EncodedValue ''undefined'' PUndefined"] exI [of _ "[]"]) (simp add: known_def)
next
  case VNull
  have "decodes h refs [] EncodedNull VNull" by (simp add: decodes_def)
  with inv show ?thesis unfolding VNull
    by (intro exI [of _ EncodedNull] exI [of _ "[]"]) (simp add: known_def)
next
  case (VBool b)
  have "decodes h refs [] (EncodedValue ''boolean'' (PBool b)) (VBool b)" by (simp add: decodes_def)
  with inv show ?thesis unfolding VBool
    by (intro exI [of _ "EncodedValue ''boolean'' (PBool b)"] exI [of _ "[]"]) (simp add: known_def)
next
  case (VNum i)
  have "decodes h refs [] (EncodedValue ''number'' (PNum i)) (VNum i)" by (simp add: decodes_def)
  with inv show ?thesis unfolding VNum
    by (intro exI [of _ "EncodedValue ''number'' (PNum i)"] exI [of _ "[]"]) (simp add: known_def)
next
  case VNaN
  have "decodes h refs [] (EncodedValue ''number'' PNaN) VNaN" by (simp add: decodes_def)
  with inv show ?thesis unfolding VNaN
    by (intro exI [of _ "EncodedValue ''number'' PNaN"] exI [of _ "[]"]) (simp add: known_def)
next
  case (VStr str)
  have "decodes h refs [] (EncodedValue ''string'' (PStr str)) (VStr str)" by (simp add: decodes_def)
  with inv show ?thesis unfolding VStr
    by (intro exI [of _ "EncodedValue ''string'' (PStr str)"] exI [of _ "[]"]) (simp add: known_def)
next
  case (VBigInt i)
  have "decodes h refs [] (EncodedBigInt (show_int i)) (VBigInt i)"
    by (simp add: decodes_def parse_show_int)
  with inv show ?thesis unfolding VBigInt
    by (intro exI [of _ "EncodedBigInt (show_int i)"] exI [of _ "[]"]) (simp add: known_def)
next
  case (VSym y)
  with pv show ?thesis by simp
next
  case (VFun f)
  with pv show ?thesis by simp
next
  case (VObj r)
  with pv obtain a where r: "r = Raw a" and a: "a < length h" by (cases r) auto
  show ?thesis
  proof (cases "map_of refs r")
    case (Some i)
    then have "(r, i) \<in> set refs" by (rule map_of_SomeD)
    then have "i \<in> set (map snd refs)" by force
    with inv have i: "i < length refs" by (simp add: enc_inv_def)
    have "decodes h refs [] (EncodedReference i) (VObj r)"
      unfolding decodes_def
    proof (intro allI impI)
      fix later ds base
      assume "dec_match base (length refs) ds"
      with i have "map_of (drefs ds) i = Some (VObj (Raw (base + i)))" by (simp add: dec_match_def)
      with \<open>dec_match base (length refs) ds\<close> Some
      show "\<exists>ds'. Decode (EncodedReference i) ds = (Inr (rename (refs @ [] @ later) base (VObj r)), ds') \<and>
               dec_match base (length refs + length []) ds' \<and>
               dheap ds' = dheap ds @ map (cell h (refs @ [] @ later) base) []"
        by (simp add: map_add_def)
    qed
    with inv Some show ?thesis unfolding VObj
      by (intro exI [of _ "EncodedReference i"] exI [of _ "[]"]) (simp add: known_def)
  next
    case None
    let ?rf = "length refs"
    let ?refs1 = "refs @ [(r, ?rf)]"
    from enc_inv_snoc [OF inv None [unfolded r] a] have inv1: "enc_inv h ?refs1" by (simp add: r)
    from fuel have fuel1: "length h < n + length ?refs1" by simp
    from a have hat: "heap_at h (raw_of r) = h ! a" by (simp add: heap_at_def r)
    from heap a have plain: "plain_obj h (h ! a)" by (simp add: plain_heap_def)
    have kn: "known (refs @ (r, ?rf) # new1) (VObj r)" for new1
      using map_of_new [OF None, of ?rf new1] by (simp add: known_def)
    show ?thesis
    proof (cases "h ! a")
      case (HArray xs)
      with plain have "\<forall>x \<in> set xs. plain_val h x" by simp
      from each [OF this inv1 fuel1] obtain ws new1 where
        e: "Encode_each n h [] xs (?refs1, syms) = Some (ws, (?refs1 @ new1, syms))"
        and inv2: "enc_inv h (?refs1 @ new1)"
        and k: "\<forall>x \<in> set xs. known (?refs1 @ new1) x" and c: "closed h (?refs1 @ new1) new1"
        and d: "decodes_each h ?refs1 new1 ws xs" by blast
      have cl: "closed h (refs @ (r, ?rf) # new1) ((r, ?rf) # new1)"
        using k c by (simp add: closed_Cons hat HArray)
      have "Encode (Suc n) h [] (VObj r) (refs, syms) = Some (EncodedArray ws ?rf, (refs @ (r, ?rf) # new1, syms))"
        unfolding Encode_array [OF None hat [unfolded HArray]] e by simp
      moreover have "decodes h refs ((r, ?rf) # new1) (EncodedArray ws ?rf) (VObj r)"
        by (rule composite_each [OF None d, of _ "HArray []"])
          (simp_all add: hat HArray foldl_push_array)
      ultimately show ?thesis unfolding VObj using inv2 kn cl by (intro exI) auto
    next
      case (HSet xs)
      with plain have pxs: "\<forall>x \<in> set xs. plain_val h x" and dxs: "distinct xs" by simp_all
      from each [OF pxs inv1 fuel1] obtain ws new1 where
        e: "Encode_each n h [] xs (?refs1, syms) = Some (ws, (?refs1 @ new1, syms))"
        and inv2: "enc_inv h (?refs1 @ new1)"
        and k: "\<forall>x \<in> set xs. known (?refs1 @ new1) x" and c: "closed h (?refs1 @ new1) new1"
        and d: "decodes_each h ?refs1 new1 ws xs" by blast
      have cl: "closed h (refs @ (r, ?rf) # new1) ((r, ?rf) # new1)"
        using k c by (simp add: closed_Cons hat HSet)
      have "Encode (Suc n) h [] (VObj r) (refs, syms) = Some (EncodedSet ws ?rf, (refs @ (r, ?rf) # new1, syms))"
        unfolding Encode_set [OF None hat [unfolded HSet]] e by simp
      moreover have "decodes h refs ((r, ?rf) # new1) (EncodedSet ws ?rf) (VObj r)"
      proof (rule composite_each [OF None d, of _ "HSet []"])
        fix later base
        assume R: "enc_inv h (?refs1 @ new1 @ later)"
        have "\<forall>x \<in> set xs. known (?refs1 @ new1 @ later) x"
          using k known_prefix [of "?refs1 @ new1" _ later] by simp
        from rename_inj_on [OF R this] dxs
        have "distinct (map (rename (?refs1 @ new1 @ later) base) xs)" by (simp add: distinct_map)
        from foldl_push_set [OF this, of "[]"]
        show "foldl push (HSet []) (map (rename (?refs1 @ new1 @ later) base) xs)
              = rename_obj (?refs1 @ new1 @ later) base (heap_at h (raw_of r))"
          by (simp add: hat HSet)
      qed simp
      ultimately show ?thesis unfolding VObj using inv2 kn cl by (intro exI) auto
    next
      case (HMap kvs)
      with plain have pkvs: "\<forall>(k, v) \<in> set kvs. plain_val h k \<and> plain_val h v"
        and dk: "distinct (map fst kvs)" by simp_all
      from entries [OF pkvs inv1 fuel1] obtain ws new1 where
        e: "Encode_entries n h [] kvs (?refs1, syms) = Some (ws, (?refs1 @ new1, syms))"
        and inv2: "enc_inv h (?refs1 @ new1)"
        and k: "\<forall>(k, v) \<in> set kvs. known (?refs1 @ new1) k \<and> known (?refs1 @ new1) v"
        and c: "closed h (?refs1 @ new1) new1"
        and d: "decodes_entries h ?refs1 new1 ws kvs" by blast
      have cl: "closed h (refs @ (r, ?rf) # new1) ((r, ?rf) # new1)"
      proof -
        have "\<forall>x \<in> set (map fst kvs @ map snd kvs). known (?refs1 @ new1) x" using k by fastforce
        with c show ?thesis by (simp add: closed_Cons hat HMap del: set_append map_append)
      qed
      have "Encode (Suc n) h [] (VObj r) (refs, syms) = Some (EncodedMap ws ?rf, (refs @ (r, ?rf) # new1, syms))"
        unfolding Encode_map [OF None hat [unfolded HMap]] e by simp
      moreover have "decodes h refs ((r, ?rf) # new1) (EncodedMap ws ?rf) (VObj r)"
      proof (rule composite_entries [OF None d, of _ "HMap []"])
        fix later base
        let ?R = "?refs1 @ new1 @ later"
        assume R: "enc_inv h ?R"
        have "\<forall>x \<in> set (map fst kvs). known ?R x"
          using k known_prefix [of "?refs1 @ new1" _ later] by fastforce
        from rename_inj_on [OF R this] dk
        have "distinct (map (rename ?R base) (map fst kvs))" by (simp add: distinct_map del: map_map)
        then have "distinct (map fst (map (\<lambda>(k, v). (rename ?R base k, rename ?R base v)) kvs))"
          by (simp add: comp_def case_prod_beta')
        from foldl_put_map [OF this, of "[]"]
        show "foldl put (HMap []) (map (\<lambda>(k, v). (rename ?R base k, rename ?R base v)) kvs)
              = rename_obj ?R base (heap_at h (raw_of r))"
          by (simp add: hat HMap)
      qed simp
      ultimately show ?thesis unfolding VObj using inv2 kn cl by (intro exI) auto
    next
      case (HObject ps)
      with plain have named: "\<forall>(k, v) \<in> set ps. case k of KStr str \<Rightarrow> str \<noteq> ''__proto__'' | KSym y \<Rightarrow> False"
        and pps0: "\<forall>(k, v) \<in> set ps. (case k of KStr str \<Rightarrow> str \<noteq> ''__proto__'' | KSym y \<Rightarrow> False) \<and> plain_val h v"
        and dk0: "distinct (map fst ps)" by auto
      from named have keys: "\<forall>(k, v) \<in> set ps. case k of KStr str \<Rightarrow> True | KSym y \<Rightarrow> False"
        by (auto split: pkey.splits)
      with pps0 dk0 have keys': "\<forall>(k, v) \<in> set ps. case k of KStr str \<Rightarrow> True | KSym y \<Rightarrow> False"
        and pps: "\<forall>(k, v) \<in> set ps. (case k of KStr str \<Rightarrow> True | KSym y \<Rightarrow> False) \<and> plain_val h v"
        and dk: "distinct (map fst ps)" by auto
      from entries [OF string_entries_plain [OF pps] inv1 fuel1] obtain ws new1 where
        e: "Encode_entries n h [] (string_entries ps) (?refs1, syms) = Some (ws, (?refs1 @ new1, syms))"
        and inv2: "enc_inv h (?refs1 @ new1)"
        and k: "\<forall>(k, v) \<in> set (string_entries ps). known (?refs1 @ new1) k \<and> known (?refs1 @ new1) v"
        and c: "closed h (?refs1 @ new1) new1"
        and d: "decodes_entries h ?refs1 new1 ws (string_entries ps)" by blast
      have "\<forall>x \<in> snd ` set ps. known (?refs1 @ new1) x"
      proof
        fix x assume "x \<in> snd ` set ps"
        from string_entries_value [OF keys this] obtain k' where "(k', x) \<in> set (string_entries ps)" ..
        with k show "known (?refs1 @ new1) x" by fast
      qed
      with c have cl: "closed h (refs @ (r, ?rf) # new1) ((r, ?rf) # new1)"
        by (simp add: closed_Cons hat HObject)
      have "Encode (Suc n) h [] (VObj r) (refs, syms) = Some (EncodedObject ws ?rf, (refs @ (r, ?rf) # new1, syms))"
        unfolding Encode_object [OF None hat [unfolded HObject]] no_symbol_entries [OF keys] append_Nil2 e by simp
      moreover have "decodes h refs ((r, ?rf) # new1) (EncodedObject ws ?rf) (VObj r)"
      proof (rule composite_entries [OF None d, of _ "HObject []"])
        fix later base
        let ?R = "?refs1 @ new1 @ later"
        from foldl_put_object [OF named dk, of "[]" ?R base]
        show "foldl put (HObject []) (map (\<lambda>(k, v). (rename ?R base k, rename ?R base v)) (string_entries ps))
              = rename_obj ?R base (heap_at h (raw_of r))"
          by (simp add: hat HObject)
      qed simp
      ultimately show ?thesis unfolding VObj using inv2 kn cl by (intro exI) auto
    next
      case (HDate d)
      have e: "Encode (Suc n) h [] (VObj r) (refs, syms) = Some (EncodedDate d ?rf, (refs @ [(r, ?rf)], syms))"
        unfolding Encode_date [OF None hat [unfolded HDate]] ..
      have "decodes h refs [(r, ?rf)] (EncodedDate d ?rf) (VObj r)"
        unfolding decodes_def
      proof (intro allI impI)
        fix later ds base
        assume m: "dec_match base ?rf ds"
        from alloc_match [OF m, of "HDate d"] obtain ds1 where
          al: "alloc (HDate d) ?rf ds = (base + ?rf, ds1)" and h1: "dheap ds1 = dheap ds @ [HDate d]"
          and m1: "dec_match base (Suc ?rf) ds1" by blast
        have "rename (refs @ [(r, ?rf)] @ later) base (VObj r) = VObj (Raw (base + ?rf))"
          using map_of_new [OF None, of ?rf later] by simp
        with al h1 m1
        show "\<exists>ds'. Decode (EncodedDate d ?rf) ds = (Inr (rename (refs @ [(r, ?rf)] @ later) base (VObj r)), ds') \<and>
               dec_match base (length refs + length [(r, ?rf)]) ds' \<and>
               dheap ds' = dheap ds @ map (cell h (refs @ [(r, ?rf)] @ later) base) [(r, ?rf)]"
          by (simp add: cell_def hat HDate)
      qed
      moreover have "closed h (refs @ [(r, ?rf)]) [(r, ?rf)]" by (simp add: closed_Cons hat HDate)
      ultimately show ?thesis using e inv1 kn [of "[]"] unfolding VObj by (intro exI) auto
    qed
  qed
qed


lemma one_ok:
  assumes heap: "plain_heap h"
  shows "plain_val h v \<Longrightarrow> enc_inv h refs \<Longrightarrow> length h < n + length refs \<Longrightarrow>
        \<exists>w new. Encode n h [] v (refs, syms) = Some (w, (refs @ new, syms)) \<and> enc_inv h (refs @ new) \<and>
          known (refs @ new) v \<and> closed h (refs @ new) new \<and> decodes h refs new w v"
proof (induction n arbitrary: v refs)
  case 0
  from enc_inv_bound [OF 0(2)] 0(3) show ?case by simp
next
  case (Suc n)
  show ?case
    by (rule one_step [OF heap _ _ Suc.prems]; rule each_ok entries_ok;
        (assumption | (rule Suc.IH; assumption)))
qed

text \<open>
  The round trip on the graphs of \<open>plain_heap\<close>, in which no object has an own property
  named \<^verbatim>\<open>__proto__\<close> and every date is valid. For a value graph \<open>v\<close> in a heap \<open>h\<close> of plain
  objects, lists, maps, sets and dates, \<^verbatim>\<open>Encode\<close> returns with any fuel above the number of objects of the heap (its
  recursion ends, cycles or not) and leaves the symbol table as it was; \<^verbatim>\<open>Decode\<close>, a total
  function, returns no error on the result and yields the copy of \<open>v\<close>, having added to its
  heap exactly the copies of the objects \<^verbatim>\<open>Encode\<close> met, in order. Every reference held by
  \<open>v\<close> or by one of these objects is to one of these objects, so the copy is structurally
  equal to the original, and two references are copied to the same cell only if they are
  the same reference: sharing and cycles are kept, and nothing is duplicated or merged.
\<close>

lemma codec_round_trip:
  "plain_heap h \<and> plain_val h v \<and> length h < n \<longrightarrow>
     (\<exists>w refs.
        Encode n h [] v ([], syms) = Some (w, (refs, syms)) \<and>
        fst (Decode w ds) = Inr (rename refs (length (dheap ds)) v) \<and>
        dheap (snd (Decode w ds)) = dheap ds @ map (cell h refs (length (dheap ds))) refs \<and>
        known refs v \<and> closed h refs refs \<and> map snd refs = [0..<length refs] \<and>
        (\<forall>r1 \<in> fst ` set refs. \<forall>r2 \<in> fst ` set refs.
           rename refs (length (dheap ds)) (VObj r1) = rename refs (length (dheap ds)) (VObj r2) \<longrightarrow> r1 = r2))"
proof (intro impI)
  assume a: "plain_heap h \<and> plain_val h v \<and> length h < n"
  then have heap: "plain_heap h" and pv: "plain_val h v" and fuel: "length h < n + length ([] :: (ref \<times> nat) list)"
    by simp_all
  from one_ok [OF heap pv enc_inv_Nil fuel, of syms] obtain w refs where
    e: "Encode n h [] v ([], syms) = Some (w, (refs, syms))" and inv: "enc_inv h refs"
    and k: "known refs v" and c: "closed h refs refs" and d: "decodes h [] refs w v"
    by auto
  define base where "base = length (dheap ds)"
  have m: "dec_match base (length ([] :: (ref \<times> nat) list)) ds" by (simp add: dec_match_def base_def)
  have R: "enc_inv h ([] @ refs @ [])" using inv by simp
  from d [unfolded decodes_def, rule_format, where later = "[]" and ds = ds and base = base, OF R m]
  obtain ds' where D: "Decode w ds = (Inr (rename refs base v), ds')"
    and h': "dheap ds' = dheap ds @ map (cell h refs base) refs" by auto
  have ids: "r1 = r2" if "r1 \<in> fst ` set refs" "r2 \<in> fst ` set refs"
    "rename refs base (VObj r1) = rename refs base (VObj r2)" for r1 r2
  proof -
    from that(1,2) obtain i1 i2 where i: "map_of refs r1 = Some i1" "map_of refs r2 = Some i2"
      by (meson map_of_eq_None_iff not_Some_eq)
    with that(3) have "i1 = i2" by simp
    with enc_inv_ids [OF inv i(1)] i(2) show ?thesis by simp
  qed
  from inv have "map snd refs = [0..<length refs]" by (simp add: enc_inv_def)
  with e D h' k c ids show "\<exists>w refs.
        Encode n h [] v ([], syms) = Some (w, (refs, syms)) \<and>
        fst (Decode w ds) = Inr (rename refs (length (dheap ds)) v) \<and>
        dheap (snd (Decode w ds)) = dheap ds @ map (cell h refs (length (dheap ds))) refs \<and>
        known refs v \<and> closed h refs refs \<and> map snd refs = [0..<length refs] \<and>
        (\<forall>r1 \<in> fst ` set refs. \<forall>r2 \<in> fst ` set refs.
           rename refs (length (dheap ds)) (VObj r1) = rename refs (length (dheap ds)) (VObj r2) \<longrightarrow> r1 = r2)"
    unfolding base_def [symmetric] by (intro exI [of _ w] exI [of _ refs]) simp
qed

text \<open>The theorem at work on the graph \<open>family\<close>, whose root is in a cycle with its set.\<close>

lemma codec_round_trip_on_family:
  "plain_heap family \<and> plain_val family (VObj (Raw 0)) \<and> length family < 3 \<and>
   (\<exists>w refs.
        Encode 3 family [] (VObj (Raw 0)) ([], []) = Some (w, (refs, [])) \<and>
        fst (Decode w dec_init) = Inr (rename refs (length (dheap dec_init)) (VObj (Raw 0))) \<and>
        dheap (snd (Decode w dec_init)) =
          dheap dec_init @ map (cell family refs (length (dheap dec_init))) refs \<and>
        known refs (VObj (Raw 0)) \<and> closed family refs refs \<and> map snd refs = [0..<length refs] \<and>
        (\<forall>r1 \<in> fst ` set refs. \<forall>r2 \<in> fst ` set refs.
           rename refs (length (dheap dec_init)) (VObj r1) = rename refs (length (dheap dec_init)) (VObj r2)
             \<longrightarrow> r1 = r2))"
proof -
  have "plain_heap family" "plain_val family (VObj (Raw 0))" "length family < 3" by code_simp+
  with codec_round_trip [of family "VObj (Raw 0)" 3 "[]" dec_init] show ?thesis by blast
qed

text \<open>
  The same run computed: the wire form of \<open>family\<close>, with a reference for the second
  meeting of the root and of the set, and the heap \<^verbatim>\<open>Decode\<close> rebuilds from it, equal to
  \<open>family\<close> cell by cell.
\<close>

lemma family_encoded:
  "Encode 3 family [] (VObj (Raw 0)) ([], []) = Some (family_wire, ([(Raw 0, 0), (Raw 1, 1)], []))"
  by code_simp

lemma family_decoded:
  "fst (Decode family_wire dec_init) = Inr (VObj (Raw 0)) \<and> dheap (snd (Decode family_wire dec_init)) = family"
  by code_simp

text \<open>
  Claim C5 (the code departs from it): \<^verbatim>\<open>Decode(Encode(v))\<close> is structurally equal to \<open>v\<close>
  for every value graph. The object of \<open>proto_keyed\<close> has the two own properties
  \<^verbatim>\<open>__proto__\<close> and \<^verbatim>\<open>name\<close>; \<^verbatim>\<open>Encode\<close> writes both entries, and \<^verbatim>\<open>Decode\<close> assigns them in
  turn to a new \<^verbatim>\<open>{}\<close>, where the assignment to \<^verbatim>\<open>__proto__\<close> runs the inherited setter and
  creates no property: the decoded object has the property \<^verbatim>\<open>name\<close> only.
\<close>

theorem own_proto_key_lost_in_round_trip:
  "Encode 2 proto_keyed [] (VObj (Raw 0)) ([], []) = Some (proto_keyed_wire, ([(Raw 0, 0)], []))
   \<and> fst (Decode proto_keyed_wire dec_init) = Inr (VObj (Raw 0))
   \<and> dheap (snd (Decode proto_keyed_wire dec_init)) = [HObject [(KStr ''name'', VStr ''John'')]]
   \<and> dheap (snd (Decode proto_keyed_wire dec_init)) \<noteq> proto_keyed"
  by code_simp

end
